theory Spec2Isabelle
  imports Main "HOL-Library.AList"
begin

section \<open>Python strings\<close>

text \<open>
  A Python \<open>str\<close> is modelled as a \<open>string\<close>; a \<open>char\<close> stands for one code point
  below 256.  The library functions used by \<open>helpers/subprocess_helper.py\<close> are written
  out for that range: \<open>str.isspace\<close>, \<open>str.lower\<close>, \<open>str.split()\<close>, \<open>str.join\<close>,
  \<open>str.startswith\<close>, \<open>str.replace\<close> for the line continuation and
  \<open>word.split("=")[0]\<close>.
\<close>

abbreviation SQ :: char where "SQ \<equiv> CHR 0x27"
abbreviation DQ :: char where "DQ \<equiv> CHR 0x22"
abbreviation BSL :: char where "BSL \<equiv> CHR 0x5C"
abbreviation NL :: char where "NL \<equiv> CHR 0x0A"
abbreviation SP :: char where "SP \<equiv> CHR 0x20"

definition isspace :: "char \<Rightarrow> bool" where
  "isspace c \<longleftrightarrow> c \<in> set [CHR 0x09, CHR 0x0A, CHR 0x0B, CHR 0x0C, CHR 0x0D,
     CHR 0x1C, CHR 0x1D, CHR 0x1E, CHR 0x1F, CHR 0x20, CHR 0x85, CHR 0xA0]"

definition lower_char :: "char \<Rightarrow> char" where
  "lower_char c =
     (let n = (of_char c :: nat)
      in if (65 \<le> n \<and> n \<le> 90) \<or> (192 \<le> n \<and> n \<le> 222 \<and> n \<noteq> 215)
         then char_of (n + 32) else c)"

definition lower :: "string \<Rightarrow> string" where
  "lower s = map lower_char s"

fun startswith :: "string \<Rightarrow> string \<Rightarrow> bool" where
  "startswith s [] = True"
| "startswith [] (p # ps) = False"
| "startswith (c # cs) (p # ps) = (c = p \<and> startswith cs ps)"

fun join :: "string \<Rightarrow> string list \<Rightarrow> string" where
  "join sep [] = []"
| "join sep [w] = w"
| "join sep (w # v # ws) = w @ sep @ join sep (v # ws)"

text \<open>\<open>s.split()\<close>: the maximal runs of non-whitespace characters, \<open>w\<close> being the run
  read so far.\<close>

fun split_ws :: "string \<Rightarrow> string \<Rightarrow> string list" where
  "split_ws w [] = (if w = [] then [] else [w])"
| "split_ws w (c # cs) =
     (if isspace c then (if w = [] then split_ws [] cs else w # split_ws [] cs)
      else split_ws (w @ [c]) cs)"

definition py_split :: "string \<Rightarrow> string list" where
  "py_split s = split_ws [] s"

text \<open>\<open>cmd.replace("\\\n", " ")\<close>: every backslash followed by a newline becomes one
  space.\<close>

fun replace_continuation :: "string \<Rightarrow> string" where
  "replace_continuation (a # b # cs) =
     (if a = BSL \<and> b = NL then SP # replace_continuation cs
      else a # replace_continuation (b # cs))"
| "replace_continuation cs = cs"

text \<open>\<open>word.split("=")[0]\<close>: the text before the first equals sign.\<close>

definition before_equals :: "string \<Rightarrow> string" where
  "before_equals w = takeWhile (\<lambda>c. c \<noteq> CHR ''='') w"

section \<open>The tokenizer: \<open>parse_command\<close>\<close>

datatype cmd = Str string | Lst "string list"

definition chain_operators :: "string list" where
  "chain_operators = [''&&'', ''||'', ''|'']"

record scan_state =
  parts :: "string list list"
  separators :: "string list"
  current_part :: "string list"
  current_word :: string
  in_quotes :: bool
  quote_char :: "char option"

definition scan_init :: scan_state where
  "scan_init = \<lparr>parts = [], separators = [], current_part = [], current_word = [],
     in_quotes = False, quote_char = None\<rparr>"

text \<open>One iteration of \<open>for char in cmd\<close> (lines 73 to 90).\<close>

definition scan_char :: "scan_state \<Rightarrow> char \<Rightarrow> scan_state" where
  "scan_char st c =
     (if (c = SQ \<or> c = DQ) \<and> (\<not> in_quotes st \<or> quote_char st = Some c) then
        st\<lparr>in_quotes := \<not> in_quotes st,
           quote_char := (if \<not> in_quotes st then Some c else None),
           current_word := current_word st @ [c]\<rparr>
      else if isspace c \<and> \<not> in_quotes st then
        (if current_word st \<noteq> [] then
           (if current_word st \<in> set chain_operators then
              (if current_part st \<noteq> [] then
                 st\<lparr>parts := parts st @ [current_part st],
                    separators := separators st @ [current_word st],
                    current_part := [], current_word := []\<rparr>
               else st\<lparr>current_part := [], current_word := []\<rparr>)
            else st\<lparr>current_part := current_part st @ [current_word st],
                    current_word := []\<rparr>)
         else st)
      else st\<lparr>current_word := current_word st @ [c]\<rparr>)"

text \<open>The handling of the last word (lines 92 to 102) and the final
  \<open>return parts or [[]], separators\<close>.\<close>

definition scan_finish :: "scan_state \<Rightarrow> string list list \<times> string list" where
  "scan_finish st =
     (let (ps, seps) =
        (if current_word st \<noteq> [] then
           (if current_word st \<in> set chain_operators then
              (if current_part st \<noteq> [] then
                 (parts st @ [current_part st], separators st @ [current_word st])
               else (parts st, separators st))
            else (parts st @ [current_part st @ [current_word st]], separators st))
         else (parts st, separators st))
      in (if ps = [] then [[]] else ps, seps))"

definition normalize_whitespace :: "string \<Rightarrow> string" where
  "normalize_whitespace s = join '' '' (py_split (replace_continuation s))"

definition parse_command :: "cmd \<Rightarrow> string list list \<times> string list" where
  "parse_command c =
     (case c of
        Lst ws \<Rightarrow> ([ws], [])
      | Str s \<Rightarrow>
          if NL \<in> set s then ([[s]], [])
          else scan_finish (foldl scan_char scan_init (normalize_whitespace s)))"

section \<open>The self-install guard\<close>

text \<open>The \<open>while\<close> loop that skips the flags of \<open>sudo\<close>: \<open>ws\<close> is \<open>words[i:]\<close>, the
  result is the first index at or after \<open>i\<close> whose word does not start with a dash.\<close>

fun skip_flags :: "string list \<Rightarrow> nat \<Rightarrow> nat" where
  "skip_flags [] i = i"
| "skip_flags (w # ws) i = (if startswith w ''-'' then skip_flags ws (Suc i) else i)"

text \<open>\<open>start_idx\<close> as computed in \<open>_is_single_command_installing_sudo\<close>, in
  \<open>strip_sudo\<close> and in the Windows branch of \<open>run_subprocess\<close>, for a non-empty word
  list.\<close>

definition start_idx :: "string list \<Rightarrow> nat" where
  "start_idx words =
     (if lower (hd words) = ''sudo'' then skip_flags (tl words) 1 else 0)"

definition is_single_command_installing_sudo :: "string list \<Rightarrow> bool" where
  "is_single_command_installing_sudo words =
     (if words = [] then False
      else if start_idx words \<ge> length words - 1 then False
      else
        (let pkg_manager = lower (words ! start_idx words);
             action = words ! (start_idx words + 1)
         in if (pkg_manager = ''pacman'' \<and> action = ''-S'')
               \<or> (pkg_manager \<in> set [''apt'', ''apt-get'', ''yum'', ''dnf'', ''zypper'']
                   \<and> lower action = ''install'')
            then ''sudo'' \<in> set (map (\<lambda>w. lower (before_equals w))
                   (filter (\<lambda>w. \<not> startswith w ''-'') (drop (start_idx words + 2) words)))
            else False))"

definition is_installing_sudo :: "cmd \<Rightarrow> bool" where
  "is_installing_sudo c = list_ex is_single_command_installing_sudo (fst (parse_command c))"

text \<open>The reconstruction loop shared by \<open>strip_sudo\<close> and \<open>run_subprocess\<close>:
  \<open>for i, part in enumerate(ps)\<close>, the separator \<open>separators[i - 1]\<close> in front of every
  part but the first, when there is one.\<close>

fun reconstruct :: "nat \<Rightarrow> string list list \<Rightarrow> string list \<Rightarrow> string list" where
  "reconstruct i [] seps = []"
| "reconstruct i (part # rest) seps =
     (if i > 0 \<and> i - 1 < length seps then [seps ! (i - 1)] else [])
       @ part @ reconstruct (Suc i) rest seps"

definition strip_sudo :: "cmd \<Rightarrow> cmd" where
  "strip_sudo c =
     (if is_installing_sudo c then c
      else
        (let (command_parts, seps) = parse_command c;
             stripped_parts =
               map (\<lambda>words. if words \<noteq> [] then drop (start_idx words) words else words)
                 command_parts
         in case c of
              Lst _ \<Rightarrow> Lst (if stripped_parts \<noteq> [] then hd stripped_parts else [])
            | Str _ \<Rightarrow> Str (join '' '' (reconstruct 0 stripped_parts seps))))"

section \<open>The host and the availability probe\<close>

text \<open>What the code asks of the operating system: \<open>os.name == "nt"\<close>, the search along
  the execution path behind \<open>shutil.which\<close>, \<open>os.path.exists\<close> and
  \<open>os.access(path, os.X_OK)\<close>.\<close>

record host =
  os_nt :: bool
  which :: "string \<Rightarrow> string option"
  path_exists :: "string \<Rightarrow> bool"
  access_x :: "string \<Rightarrow> bool"

text \<open>\<open>shutil.which\<close> returns a file only when \<open>os.access\<close> finds it executable.\<close>

definition shutil_which :: "host \<Rightarrow> string \<Rightarrow> string option" where
  "shutil_which h w =
     (case which h w of
        None \<Rightarrow> None
      | Some p \<Rightarrow> if access_x h p then Some p else None)"

text \<open>\<open>os.path.isabs\<close> on the platforms that reach it (the Windows branch of
  \<open>command_needs_sudo\<close> never does): the path begins with a slash.\<close>

definition path_isabs :: "string \<Rightarrow> bool" where
  "path_isabs w = startswith w ''/''"

text \<open>Truth value of an optional path, as \<open>bool(...)\<close> and \<open>if cmd_path\<close> take it.\<close>

definition truthy :: "string option \<Rightarrow> bool" where
  "truthy p = (case p of None \<Rightarrow> False | Some s \<Rightarrow> s \<noteq> [])"

text \<open>The module-level cache \<open>_sudo_available\<close> is passed in and returned.\<close>

type_synonym sudo_cache = "bool option"

definition reset_sudo_cache :: "sudo_cache \<Rightarrow> sudo_cache" where
  "reset_sudo_cache c = None"

definition is_sudo_available :: "host \<Rightarrow> sudo_cache \<Rightarrow> bool \<times> sudo_cache" where
  "is_sudo_available h c =
     (case c of
        None \<Rightarrow> (let v = truthy (shutil_which h ''sudo'') in (v, Some v))
      | Some v \<Rightarrow> (v, Some v))"

section \<open>The elevation decision: \<open>command_needs_sudo\<close>\<close>

definition admin_commands :: "string list" where
  "admin_commands = [''net'', ''sc'', ''reg'', ''bcdedit'', ''diskpart'', ''chkdsk'', ''format'']"

definition admin_operations :: "string list" where
  "admin_operations = [''user'', ''localgroup'', ''accounts'', ''share'']"

definition sudo_commands :: "string list" where
  "sudo_commands = [''apt'', ''apt-get'', ''dnf'', ''yum'', ''pacman'', ''rpm'', ''dpkg'',
     ''systemctl'', ''service'', ''mount'', ''umount'', ''fdisk'', ''mkfs'', ''cryptsetup'',
     ''lvextend'', ''resize2fs'']"

text \<open>The permission fallback of lines 290 to 298.\<close>

definition not_executable :: "host \<Rightarrow> string \<Rightarrow> bool" where
  "not_executable h w =
     (let cmd_path = (if path_isabs w \<and> path_exists h w then Some w else shutil_which h w)
      in truthy cmd_path \<and> \<not> access_x h (the cmd_path))"

text \<open>The loop \<open>for words in parts\<close> of lines 236 to 300, with its early returns.\<close>

fun needs_sudo_parts :: "host \<Rightarrow> string list list \<Rightarrow> bool" where
  "needs_sudo_parts h [] = False"
| "needs_sudo_parts h (words # rest) =
     (if words = [] then needs_sudo_parts h rest
      else
        (let base_cmd = lower (hd words)
         in if os_nt h then
              (if base_cmd \<in> set admin_commands then
                 (if base_cmd = ''net''
                  then length words > 1 \<and> lower (words ! 1) \<in> set admin_operations
                  else True)
               else needs_sudo_parts h rest)
            else if base_cmd = ''net'' \<and> length words > 1 \<and> lower (words ! 1) = ''user''
              then True
            else if base_cmd \<in> set sudo_commands then True
            else if not_executable h (hd words) then True
            else needs_sudo_parts h rest))"

definition command_needs_sudo :: "host \<Rightarrow> sudo_cache \<Rightarrow> cmd \<Rightarrow> bool \<times> sudo_cache" where
  "command_needs_sudo h c cm =
     (let (avail, c') = is_sudo_available h c
      in if \<not> avail then (False, c')
         else
           (let ps = fst (parse_command cm)
            in if list_ex (\<lambda>words. words \<noteq> [] \<and> lower (hd words) = ''sudo'') ps
               then (False, c')
               else (needs_sudo_parts h ps, c')))"

section \<open>The rewrite in \<open>run_subprocess\<close>\<close>

text \<open>The loop \<open>for part in parts\<close> of lines 333 to 352.  On Unix the second operand of
  \<open>and\<close> is evaluated, and the cache touched, only for a part that does not begin with
  \<open>sudo\<close>.\<close>

fun process_parts :: "host \<Rightarrow> sudo_cache \<Rightarrow> string list list \<Rightarrow> string list list \<times> sudo_cache" where
  "process_parts h c [] = ([], c)"
| "process_parts h c (part # rest) =
     (if part = [] then process_parts h c rest
      else if os_nt h then
        (let (ps, c') = process_parts h c rest
         in ((if lower (hd part) = ''sudo'' then drop (skip_flags (tl part) 1) part else part) # ps,
             c'))
      else if lower (hd part) \<noteq> ''sudo'' then
        (let (n, c1) = command_needs_sudo h c (Lst part);
             (ps, c2) = process_parts h c1 rest
         in ((if n then ''sudo'' # part else part) # ps, c2))
      else
        (let (ps, c') = process_parts h c rest in (part # ps, c')))"

datatype py_error =
    ValueError string
  | TypeError string
  | OSError string
  | CalledProcessError int
  | FileNotFoundError string

text \<open>Lines 327 to 363: the command that \<open>run_subprocess\<close> goes on to execute, of the
  type of its input, and the cache after the loop.\<close>

definition final_cmd :: "host \<Rightarrow> sudo_cache \<Rightarrow> cmd \<Rightarrow> py_error + (cmd \<times> sudo_cache)" where
  "final_cmd h c cm =
     (let (ps, seps) = parse_command cm
      in if ps = [] then Inl (ValueError ''Empty command'')
         else
           (let (processed_parts, c') = process_parts h c ps;
                ws = reconstruct 0 processed_parts seps
            in Inr (case cm of Str _ \<Rightarrow> Str (join '' '' ws) | Lst _ \<Rightarrow> Lst ws, c')))"

section \<open>Splitting into argv: \<open>shlex.split\<close>\<close>

text \<open>
  Line 395 calls the standard library's \<open>shlex.split(final_cmd)\<close>: a \<open>shlex\<close> in POSIX
  mode with \<open>whitespace_split\<close> set and no comment characters.  Its \<open>read_token\<close> is a
  state machine over the characters; the states are the whitespace state, the word state,
  inside a quote, and after a backslash (remembering the state to go back to: the word state,
  or the double quote the backslash was read in).
\<close>

datatype lex_state = LSpace | LWord | LQuote char | LEscape "char option"

definition shlex_whitespace :: "char \<Rightarrow> bool" where
  "shlex_whitespace c \<longleftrightarrow> c \<in> set [SP, CHR 0x09, CHR 0x0D, NL]"

definition emit :: "string \<Rightarrow> py_error + string list \<Rightarrow> py_error + string list" where
  "emit tok r = (case r of Inl e \<Rightarrow> Inl e | Inr ts \<Rightarrow> Inr (tok # ts))"

text \<open>\<open>tok\<close> is \<open>self.token\<close>, \<open>quoted\<close> the flag of the same name; a token is emitted
  when \<open>read_token\<close> breaks out of its loop with a token that is non-empty or quoted.\<close>

fun shlex_tokens :: "lex_state \<Rightarrow> string \<Rightarrow> bool \<Rightarrow> string \<Rightarrow> py_error + string list" where
  "shlex_tokens st tok quoted [] =
     (case st of
        LQuote q \<Rightarrow> Inl (ValueError ''No closing quotation'')
      | LEscape e \<Rightarrow> Inl (ValueError ''No escaped character'')
      | _ \<Rightarrow> (if tok \<noteq> [] \<or> quoted then Inr [tok] else Inr []))"
| "shlex_tokens LSpace tok quoted (c # cs) =
     (if shlex_whitespace c then
        (if tok \<noteq> [] \<or> quoted then emit tok (shlex_tokens LSpace [] False cs)
         else shlex_tokens LSpace tok quoted cs)
      else if c = BSL then shlex_tokens (LEscape None) tok quoted cs
      else if c = SQ \<or> c = DQ then shlex_tokens (LQuote c) tok quoted cs
      else shlex_tokens LWord [c] quoted cs)"
| "shlex_tokens (LQuote q) tok quoted (c # cs) =
     (if c = q then shlex_tokens LWord tok True cs
      else if c = BSL \<and> q = DQ then shlex_tokens (LEscape (Some q)) tok True cs
      else shlex_tokens (LQuote q) (tok @ [c]) True cs)"
| "shlex_tokens (LEscape e) tok quoted (c # cs) =
     (case e of
        Some q \<Rightarrow>
          shlex_tokens (LQuote q) ((if c \<noteq> BSL \<and> c \<noteq> q then tok @ [BSL] else tok) @ [c])
            quoted cs
      | None \<Rightarrow> shlex_tokens LWord (tok @ [c]) quoted cs)"
| "shlex_tokens LWord tok quoted (c # cs) =
     (if shlex_whitespace c then
        (if tok \<noteq> [] \<or> quoted then emit tok (shlex_tokens LSpace [] False cs)
         else shlex_tokens LSpace tok quoted cs)
      else if c = SQ \<or> c = DQ then shlex_tokens (LQuote c) tok quoted cs
      else if c = BSL then shlex_tokens (LEscape None) tok quoted cs
      else shlex_tokens LWord (tok @ [c]) quoted cs)"

definition shlex_split :: "string \<Rightarrow> py_error + string list" where
  "shlex_split s = shlex_tokens LSpace [] False s"

section \<open>The execution engine: the rest of \<open>run_subprocess\<close>\<close>

datatype ShellType = SH | BASH | BAT | CMD | POWERSHELL | ZSH | FISH

fun get_shell_command :: "ShellType \<Rightarrow> string" where
  "get_shell_command BASH = ''bash -c''"
| "get_shell_command SH = ''sh -c''"
| "get_shell_command BAT = ''cmd.exe /c''"
| "get_shell_command CMD = ''cmd.exe /c''"
| "get_shell_command POWERSHELL = ''powershell.exe -Command''"
| "get_shell_command ZSH = ''zsh -c''"
| "get_shell_command FISH = ''fish -c''"

text \<open>The \<open>input\<close> argument, when it is not \<open>None\<close>, and the values that keyword
  arguments take here: \<open>None\<close>, \<open>subprocess.PIPE\<close>, a text, bytes, or a collection of
  keys (the \<open>expected_kwargs\<close> that line 385 looks into).\<close>

datatype payload = Text string | Bytes string

datatype pyval = PNone | PPipe | PText string | PBytes string | PKeys "string list"

text \<open>A dictionary of keyword arguments, in insertion order: \<open>d[k] = v\<close> is
  \<open>AList.update k v d\<close>, \<open>del d[k]\<close> is \<open>AList.delete k d\<close>, \<open>k in d\<close> asks whether
  \<open>map_of d k\<close> is defined, and \<open>d.update(e)\<close> sets the entries of \<open>e\<close> one after the
  other.\<close>

type_synonym kwargs = "(string \<times> pyval) list"

definition dict_update :: "kwargs \<Rightarrow> kwargs \<Rightarrow> kwargs" where
  "dict_update d e = foldl (\<lambda>d (k, v). AList.update k v d) d e"

record request =
  cmd :: cmd
  interactive :: bool
  input :: "payload option"
  shell :: bool
  raise_on_error :: bool
  shell_type :: "ShellType option"
  kwargs :: kwargs

text \<open>One call of \<open>subprocess.run\<close>: the command, \<open>shell\<close>, \<open>check\<close> and the other
  keyword arguments it receives (\<open>text=True\<close> in every call).\<close>

record run_call =
  call_args :: cmd
  call_shell :: bool
  call_check :: bool
  call_kwargs :: kwargs

datatype run_outcome = Raises py_error | Completed int "string option" "string option"

text \<open>What the operating system does: whether the temporary file can be created (and under
  which name), written, made executable and removed, and what \<open>subprocess.run\<close> does
  with a call, which may also change the set of files.\<close>

record os_effects =
  named_temporary_file :: "string set \<Rightarrow> string option"
  write_flush_ok :: "string \<Rightarrow> bool"
  chmod_ok :: "string \<Rightarrow> bool"
  unlink_ok :: "string \<Rightarrow> bool"
  subprocess_run :: "run_call \<Rightarrow> string set \<Rightarrow> run_outcome \<times> string set"

text \<open>The files that exist and the calls of \<open>subprocess.run\<close> made so far.\<close>

record world =
  files :: "string set"
  calls :: "run_call list"

definition payload_truthy :: "payload option \<Rightarrow> bool" where
  "payload_truthy p =
     (case p of None \<Rightarrow> False | Some (Text s) \<Rightarrow> s \<noteq> [] | Some (Bytes b) \<Rightarrow> b \<noteq> [])"

definition endswith_newline :: "string \<Rightarrow> bool" where
  "endswith_newline s \<longleftrightarrow> s \<noteq> [] \<and> last s = NL"

fun has_substring :: "string \<Rightarrow> string \<Rightarrow> bool" where
  "has_substring [] p = (p = [])"
| "has_substring (c # cs) p = (startswith (c # cs) p \<or> has_substring cs p)"

text \<open>\<open>"stdin" in v\<close> for the value of \<open>expected_kwargs\<close>.\<close>

definition contains_stdin :: "pyval \<Rightarrow> py_error + bool" where
  "contains_stdin v =
     (case v of
        PKeys ks \<Rightarrow> Inr (''stdin'' \<in> set ks)
      | PText s \<Rightarrow> Inr (has_substring s ''stdin'')
      | _ \<Rightarrow> Inl (TypeError ''argument is not iterable''))"

text \<open>Lines 365 to 386: the dictionary \<open>io_kwargs\<close>.\<close>

definition io_kwargs :: "request \<Rightarrow> py_error + kwargs" where
  "io_kwargs r =
     (let io = (if interactive r
                then [(''stdout'', PNone), (''stderr'', PNone), (''stdin'', PPipe)]
                else [(''stdout'', PPipe), (''stderr'', PPipe), (''stdin'', PNone)])
      in if payload_truthy (input r) then
           (let io1 = AList.update ''stdin'' PPipe
                        (AList.update ''input''
                           (case the (input r) of
                              Text s \<Rightarrow> PText (if endswith_newline s then s else s @ [NL])
                            | Bytes b \<Rightarrow> PBytes b)
                           io)
            in case map_of (kwargs r) ''expected_kwargs'' of
                 None \<Rightarrow> Inr (AList.delete ''stdin'' io1)
               | Some v \<Rightarrow>
                   (case contains_stdin v of
                      Inl e \<Rightarrow> Inl e
                    | Inr b \<Rightarrow> Inr (if b then io1 else AList.delete ''stdin'' io1)))
         else Inr io)"

text \<open>Lines 398 to 412: the script file.  The third component is \<open>script_path\<close> once
  line 407 has bound it.\<close>

definition write_script ::
  "os_effects \<Rightarrow> world \<Rightarrow> ShellType \<Rightarrow> (py_error + string) \<times> world \<times> string option" where
  "write_script fx w st =
     (case named_temporary_file fx (files w) of
        None \<Rightarrow> (Inl (OSError ''NamedTemporaryFile''), w, None)
      | Some p \<Rightarrow>
          (let w1 = w\<lparr>files := insert p (files w)\<rparr>
           in if \<not> write_flush_ok fx p then (Inl (OSError ''write''), w1, None)
              else if \<not> chmod_ok fx p then (Inl (OSError ''chmod''), w1, Some p)
              else (Inr (get_shell_command st @ '' '' @ p), w1, Some p)))"

text \<open>Lines 414 to 431: the call of \<open>subprocess.run\<close>.  A keyword that is passed both by
  name and in \<open>**kwargs\<close> is a \<open>TypeError\<close> of the call itself.\<close>

definition call_subprocess_run ::
  "os_effects \<Rightarrow> world \<Rightarrow> request \<Rightarrow> cmd \<Rightarrow> bool \<Rightarrow> kwargs
     \<Rightarrow> (py_error + int \<times> string option \<times> string option) \<times> world" where
  "call_subprocess_run fx w r fc sh kw =
     (let named = (if interactive r then [''shell'', ''check'', ''text'']
                   else [''shell'', ''check'', ''text'', ''input''])
      in if list_ex (\<lambda>k. map_of kw k \<noteq> None) named
         then (Inl (TypeError ''got multiple values for keyword argument''), w)
         else
           (let kw' = (if interactive r then kw
                       else AList.update ''input''
                              (case input r of None \<Rightarrow> PNone | Some (Text s) \<Rightarrow> PText s
                               | Some (Bytes b) \<Rightarrow> PBytes b)
                              kw);
                call = \<lparr>call_args = fc, call_shell = sh, call_check = raise_on_error r,
                         call_kwargs = kw'\<rparr>;
                (out, fs) = subprocess_run fx call (files w);
                w' = w\<lparr>files := fs, calls := calls w @ [call]\<rparr>
            in (case out of Raises e \<Rightarrow> Inl e | Completed rc so se \<Rightarrow> Inr (rc, so, se), w')))"

text \<open>The \<open>try\<close> block with its \<open>finally\<close> (lines 397 to 444); both \<open>except\<close> clauses
  log and raise again.  The \<open>os.unlink\<close> of line 444 has no handler: when the file is
  gone it raises \<open>FileNotFoundError\<close>, when the operating system refuses the removal it
  raises another \<open>OSError\<close> and the file stays; either error replaces the result of the
  \<open>try\<close> block.\<close>

definition try_block ::
  "os_effects \<Rightarrow> world \<Rightarrow> request \<Rightarrow> cmd \<Rightarrow> kwargs
     \<Rightarrow> (py_error + int \<times> string option \<times> string option) \<times> world" where
  "try_block fx w r fc kw =
     (let (res, w1, script_path) =
        (case shell_type r of
           None \<Rightarrow> (let (res, w1) = call_subprocess_run fx w r fc (shell r) kw
                    in (res, w1, None))
         | Some st \<Rightarrow>
             (case write_script fx w st of
                (Inl e, w1, sp) \<Rightarrow> (Inl e, w1, sp)
              | (Inr fc', w1, sp) \<Rightarrow>
                  (let (res, w2) = call_subprocess_run fx w1 r (Str fc') True kw
                   in (res, w2, sp))))
      in case script_path of
           None \<Rightarrow> (res, w1)
         | Some p \<Rightarrow>
             (if shell_type r \<noteq> None then
                (if p \<notin> files w1 then (Inl (FileNotFoundError p), w1)
                 else if \<not> unlink_ok fx p then (Inl (OSError ''unlink''), w1)
                 else (res, w1\<lparr>files := files w1 - {p}\<rparr>))
              else (res, w1)))"

definition run_subprocess ::
  "host \<Rightarrow> os_effects \<Rightarrow> sudo_cache \<Rightarrow> world \<Rightarrow> request
     \<Rightarrow> (py_error + int \<times> string option \<times> string option) \<times> world" where
  "run_subprocess h fx c w r =
     (case final_cmd h c (cmd r) of
        Inl e \<Rightarrow> (Inl e, w)
      | Inr (fc, c') \<Rightarrow>
          (case io_kwargs r of
             Inl e \<Rightarrow> (Inl e, w)
           | Inr io \<Rightarrow>
               (let kw = dict_update (kwargs r) io
                in case fc of
                     Str s \<Rightarrow>
                       (if \<not> shell r then
                          (case shlex_split s of
                             Inl e \<Rightarrow> (Inl e, w)
                           | Inr argv \<Rightarrow> try_block fx w r (Lst argv) kw)
                        else try_block fx w r (Str s) kw)
                   | Lst ws \<Rightarrow> try_block fx w r (Lst ws) kw)))"

section \<open>Accepted exit codes in \<open>run_commands\<close>\<close>

text \<open>Lines 28 to 32 of \<open>modules/command/command.py\<close>: the local \<open>valid_exit_codes\<close>, and
  the field \<open>cmd_run.valid_exit_codes\<close> afterwards (\<open>+=\<close> extends the list in place).\<close>

definition valid_exit_codes :: "int list option \<Rightarrow> int list \<times> int list option" where
  "valid_exit_codes field =
     (case field of
        None \<Rightarrow> ([0], None)
      | Some l \<Rightarrow> if l \<noteq> [] then (l @ [0], Some (l @ [0])) else ([0], Some l))"

text \<open>Line 46: the result counts as failed when its return code is not in the list.\<close>

definition command_failed :: "int list option \<Rightarrow> int \<Rightarrow> bool" where
  "command_failed field returncode \<longleftrightarrow> returncode \<notin> set (fst (valid_exit_codes field))"

section \<open>Example hosts and requests\<close>

text \<open>A Unix host on which \<open>sudo\<close> is installed and every file found is executable.\<close>

definition unix_host :: host where
  "unix_host = \<lparr>os_nt = False,
     which = (\<lambda>w. if w = ''sudo'' then Some ''/usr/bin/sudo'' else None),
     path_exists = (\<lambda>w. False), access_x = (\<lambda>p. True)\<rparr>"

text \<open>An operating system on which every step succeeds and every process exits with
  code 0 and empty output.\<close>

definition quiet_os :: os_effects where
  "quiet_os = \<lparr>named_temporary_file = (\<lambda>fs. Some ''/tmp/tmpscript.sh''),
     write_flush_ok = (\<lambda>p. True), chmod_ok = (\<lambda>p. True), unlink_ok = (\<lambda>p. True),
     subprocess_run = (\<lambda>call fs. (Completed 0 (Some []) (Some []), fs))\<rparr>"

definition empty_world :: world where
  "empty_world = \<lparr>files = {}, calls = []\<rparr>"

text \<open>\<open>run_subprocess(s)\<close> with every other argument at its default.\<close>

definition plain_request :: "string \<Rightarrow> request" where
  "plain_request s = \<lparr>cmd = Str s, interactive = False, input = None, shell = False,
     raise_on_error = False, shell_type = None, kwargs = []\<rparr>"





text \<open>A Windows host, without \<open>sudo\<close>.\<close>

definition windows_host :: host where
  "windows_host = \<lparr>os_nt = True, which = (\<lambda>w. None), path_exists = (\<lambda>w. False),
     access_x = (\<lambda>p. True)\<rparr>"

section \<open>Notions used in the statements and proofs\<close>

text \<open>What the Unix branch of the loop in \<open>run_subprocess\<close> does to one segment when the
  availability probe answers \<open>avail\<close>.\<close>

definition unix_rewrite :: "host \<Rightarrow> bool \<Rightarrow> string list \<Rightarrow> string list" where
  "unix_rewrite h avail p =
     (if p \<noteq> [] \<and> lower (hd p) \<noteq> ''sudo'' \<and> avail \<and> needs_sudo_parts h [p]
      then ''sudo'' # p else p)"

text \<open>The rest of this section describes the output of the tokenizer, for the proofs
  about re-tokenizing.  \<open>nspaced\<close>: every whitespace character is one space followed by
  a character that is not whitespace, which is what \<open>" ".join(cmd.split())\<close> produces;
  \<open>words_of\<close>: the words that the loop of \<open>parse_command\<close> cuts out of a text, \<open>q\<close>
  being the open quote if any; \<open>scan_word\<close>: the quote state after a word, or \<open>None\<close>
  when the word holds whitespace outside quotes; \<open>gstep\<close>: what the loop does with one
  finished word.\<close>

fun nspaced :: "string \<Rightarrow> bool" where
  "nspaced [] = True"
| "nspaced (c # cs) =
     (if isspace c then c = SP \<and> cs \<noteq> [] \<and> \<not> isspace (hd cs) \<and> nspaced cs else nspaced cs)"

definition wordy :: "string \<Rightarrow> bool" where
  "wordy w \<longleftrightarrow> w \<noteq> [] \<and> \<not> isspace (hd w) \<and> nspaced w"

fun words_of :: "char option \<Rightarrow> string \<Rightarrow> string \<Rightarrow> string list" where
  "words_of q cur [] = (if cur = [] then [] else [cur])"
| "words_of q cur (c # cs) =
     (if (c = SQ \<or> c = DQ) \<and> (q = None \<or> q = Some c)
      then words_of (if q = None then Some c else None) (cur @ [c]) cs
      else if isspace c \<and> q = None
      then (if cur \<noteq> [] then cur # words_of q [] cs else words_of q [] cs)
      else words_of q (cur @ [c]) cs)"

fun scan_word :: "char option \<Rightarrow> string \<Rightarrow> char option option" where
  "scan_word q [] = Some q"
| "scan_word q (c # cs) =
     (if (c = SQ \<or> c = DQ) \<and> (q = None \<or> q = Some c)
      then scan_word (if q = None then Some c else None) cs
      else if isspace c \<and> q = None then None
      else scan_word q cs)"

definition closed :: "string \<Rightarrow> bool" where
  "closed w \<longleftrightarrow> w \<noteq> [] \<and> scan_word None w = Some None"

definition openw :: "string \<Rightarrow> bool" where
  "openw w \<longleftrightarrow> w \<noteq> [] \<and> scan_word None w \<noteq> None"

fun valid_words :: "string list \<Rightarrow> bool" where
  "valid_words [] = True"
| "valid_words [w] = openw w"
| "valid_words (w # v # vs) = (closed w \<and> valid_words (v # vs))"

definition norm_ok :: "string \<Rightarrow> bool" where
  "norm_ok s \<longleftrightarrow> nspaced s \<and> (s \<noteq> [] \<longrightarrow> \<not> isspace (hd s))"

type_synonym gstate = "string list list \<times> string list \<times> string list"

fun gstep :: "gstate \<Rightarrow> string \<Rightarrow> gstate" where
  "gstep (ps, seps, cp) w =
     (if w \<in> set chain_operators
      then (if cp \<noteq> [] then (ps @ [cp], seps @ [w], []) else (ps, seps, []))
      else (ps, seps, cp @ [w]))"

fun group_parts :: "gstate \<Rightarrow> string list list" where
  "group_parts (ps, seps, cp) = (if cp \<noteq> [] then ps @ [cp] else ps)"

fun group_result :: "gstate \<Rightarrow> string list list \<times> string list" where
  "group_result (ps, seps, cp) =
     (if group_parts (ps, seps, cp) = [] then [[]] else group_parts (ps, seps, cp), seps)"

abbreviation nonop :: "string \<Rightarrow> bool" where
  "nonop w \<equiv> w \<notin> set chain_operators"

fun ginv :: "gstate \<Rightarrow> bool" where
  "ginv (ps, seps, cp) \<longleftrightarrow>
     (\<forall>p\<in>set ps. p \<noteq> [] \<and> (\<forall>w\<in>set p. nonop w)) \<and> (\<forall>w\<in>set cp. nonop w)
     \<and> set seps \<subseteq> set chain_operators \<and> length seps = length ps"

fun gcontent :: "gstate \<Rightarrow> string list" where
  "gcontent (ps, seps, cp) = concat ps @ cp"

text \<open>The quote that is open after a text, as the loop of \<open>parse_command\<close> tracks it in
  \<open>in_quotes\<close> and \<open>quote_char\<close>; a text is left with an open quote when the loop ends
  with \<open>in_quotes\<close> set.\<close>

fun qstate :: "char option \<Rightarrow> string \<Rightarrow> char option" where
  "qstate q [] = q"
| "qstate q (c # cs) =
     (if (c = SQ \<or> c = DQ) \<and> (q = None \<or> q = Some c)
      then qstate (if q = None then Some c else None) cs
      else qstate q cs)"

definition open_quote :: "string \<Rightarrow> bool" where
  "open_quote s \<longleftrightarrow> in_quotes (foldl scan_char scan_init s)"

definition special :: "char \<Rightarrow> bool" where
  "special c \<longleftrightarrow> c = SQ \<or> c = DQ \<or> c = BSL"

text \<open>The quote state of \<open>shlex\<close>.\<close>

fun lex_quote :: "lex_state \<Rightarrow> char option" where
  "lex_quote (LQuote q) = Some q"
| "lex_quote st = None"

text \<open>A word that both tokenizers read alike: not empty, no whitespace, no quote, no
  backslash.\<close>

definition plain :: "string \<Rightarrow> bool" where
  "plain w \<longleftrightarrow> w \<noteq> [] \<and> (\<forall>c\<in>set w. \<not> isspace c \<and> c \<noteq> SQ \<and> c \<noteq> DQ \<and> c \<noteq> BSL)"

section \<open>Properties\<close>

subsection \<open>Accepted exit codes\<close>

text \<open>
  Claim C10.  Exit code 0 is always accepted: whatever list of accepted exit codes the
  author gives (none, an empty one, or one without 0), the codes that \<open>run_commands\<close>
  accepts are the author's codes together with 0, and a result with return code 0 is never
  counted as failed.
\<close>

theorem zero_exit_always_accepted:
  "set (fst (valid_exit_codes field)) = insert 0 (case field of None \<Rightarrow> {} | Some l \<Rightarrow> set l)
   \<and> \<not> command_failed field 0"
  by (cases field) (auto simp: valid_exit_codes_def command_failed_def)

theorem zero_exit_always_accepted_witness:
  "set (fst (valid_exit_codes (Some [1, 2]))) = {0, 1, 2} \<and> \<not> command_failed (Some [1, 2]) 0"
  using zero_exit_always_accepted [of "Some [1, 2]"] by auto

subsection \<open>The availability probe and the rewrite loop\<close>

lemma is_sudo_available_stable:
  "fst (is_sudo_available h (snd (is_sudo_available h c))) = fst (is_sudo_available h c)"
  by (simp add: is_sudo_available_def Let_def split: option.splits)

lemma command_needs_sudo_Lst:
  "command_needs_sudo h c (Lst p) =
     (fst (is_sudo_available h c) \<and> \<not> (p \<noteq> [] \<and> lower (hd p) = ''sudo'')
        \<and> needs_sudo_parts h [p],
      snd (is_sudo_available h c))"
  by (simp add: command_needs_sudo_def parse_command_def Let_def split: prod.splits)

lemma process_parts_unix_avail:
  "\<not> os_nt h \<Longrightarrow>
   fst (is_sudo_available h (snd (process_parts h c ps))) = fst (is_sudo_available h c)"
proof (induction ps arbitrary: c)
  case Nil
  then show ?case by simp
next
  case (Cons p ps)
  then show ?case
    by (simp add: command_needs_sudo_Lst is_sudo_available_stable split_def Let_def
        del: needs_sudo_parts.simps)
qed

lemma process_parts_unix:
  "\<not> os_nt h \<Longrightarrow>
   fst (process_parts h c ps) =
     map (unix_rewrite h (fst (is_sudo_available h c))) (filter (\<lambda>p. p \<noteq> []) ps)"
proof (induction ps arbitrary: c)
  case Nil
  then show ?case by simp
next
  case (Cons p ps)
  then show ?case
    by (simp add: command_needs_sudo_Lst is_sudo_available_stable unix_rewrite_def split_def Let_def
        del: needs_sudo_parts.simps)
qed

lemma parse_command_parts_nonempty: "fst (parse_command cm) \<noteq> []"
  by (cases cm) (simp_all add: parse_command_def scan_finish_def Let_def split: prod.splits)

lemma final_cmd_Str: "\<exists>fc c'. final_cmd h c (Str s) = Inr (Str fc, c')"
  using parse_command_parts_nonempty [of "Str s"]
  by (simp add: final_cmd_def split_def Let_def)

subsection \<open>Self-install\<close>

lemma self_install_base:
  assumes "is_single_command_installing_sudo p" "lower (hd p) \<noteq> ''sudo''"
  shows "p \<noteq> [] \<and> lower (hd p) \<in> set [''pacman'', ''apt'', ''apt-get'', ''yum'', ''dnf'', ''zypper'']"
proof -
  have ne: "p \<noteq> []" using assms(1) by (auto simp: is_single_command_installing_sudo_def)
  have s0: "start_idx p = 0" using assms(2) by (simp add: start_idx_def)
  have "p ! 0 = hd p" using ne by (simp add: hd_conv_nth)
  with assms(1) ne s0 show ?thesis
    by (auto simp: is_single_command_installing_sudo_def Let_def split: if_splits)
qed

lemma self_install_rewrite_one:
  assumes "\<not> os_nt h" "is_single_command_installing_sudo p"
  shows "unix_rewrite h a p =
     (if lower (hd p) \<noteq> ''sudo'' \<and> a \<and> (lower (hd p) \<noteq> ''zypper'' \<or> not_executable h (hd p))
      then ''sudo'' # p else p)"
proof (cases "lower (hd p) = ''sudo''")
  case True
  then show ?thesis by (simp add: unix_rewrite_def)
next
  case False
  from self_install_base [OF assms(2) False]
  have ne: "p \<noteq> []"
    and b: "lower (hd p) \<in> set [''pacman'', ''apt'', ''apt-get'', ''yum'', ''dnf'', ''zypper'']"
    by simp_all
  have "needs_sudo_parts h [p] \<longleftrightarrow> lower (hd p) \<noteq> ''zypper'' \<or> not_executable h (hd p)"
    using assms(1) ne b by (auto simp: sudo_commands_def Let_def)
  then show ?thesis using False ne by (simp add: unix_rewrite_def)
qed

text \<open>
  Claim C1, as the code has it.  The rewrite in \<open>run_subprocess\<close> does not consult the
  self-install predicate.  On a Unix-family platform it never removes a prefix; a command
  whose segments all match the predicate is returned unchanged when the elevation tool is
  unavailable, and each segment that already begins with \<open>sudo\<close> is unchanged; but a
  matching segment without the prefix gets \<open>sudo\<close> prepended when the tool is available
  and its package manager is in the privileged set (\<open>apt\<close>, \<open>apt-get\<close>, \<open>yum\<close>, \<open>dnf\<close>,
  \<open>pacman\<close>; for \<open>zypper\<close> only when the permission check asks for it).
\<close>

theorem self_install_rewritten_like_any_other:
  assumes "\<not> os_nt h" and "list_all is_single_command_installing_sudo ps"
  shows "fst (process_parts h c ps) =
     map (\<lambda>p. if lower (hd p) \<noteq> ''sudo'' \<and> fst (is_sudo_available h c)
                  \<and> (lower (hd p) \<noteq> ''zypper'' \<or> not_executable h (hd p))
               then ''sudo'' # p else p) ps"
proof -
  have ne: "filter (\<lambda>p. p \<noteq> []) ps = ps"
    using assms(2) by (auto simp: list_all_iff is_single_command_installing_sudo_def
        intro!: filter_True)
  show ?thesis
    unfolding process_parts_unix [OF assms(1)] ne
    using assms(2) by (auto simp: list_all_iff self_install_rewrite_one [OF assms(1)])
qed

theorem self_install_rewritten_like_any_other_witness:
  "\<not> os_nt unix_host
   \<and> list_all is_single_command_installing_sudo
       [[''sudo'', ''apt'', ''install'', ''sudo''], [''apt-get'', ''install'', ''-y'', ''sudo'']]
   \<and> fst (process_parts unix_host None
       [[''sudo'', ''apt'', ''install'', ''sudo''], [''apt-get'', ''install'', ''-y'', ''sudo'']])
     = [[''sudo'', ''apt'', ''install'', ''sudo''],
        [''sudo'', ''apt-get'', ''install'', ''-y'', ''sudo'']]"
proof -
  have a: "\<not> os_nt unix_host" by (simp add: unix_host_def)
  have b: "list_all is_single_command_installing_sudo
       [[''sudo'', ''apt'', ''install'', ''sudo''], [''apt-get'', ''install'', ''-y'', ''sudo'']]"
    by code_simp
  have c: "map (\<lambda>p. if lower (hd p) \<noteq> ''sudo'' \<and> fst (is_sudo_available unix_host None)
                  \<and> (lower (hd p) \<noteq> ''zypper'' \<or> not_executable unix_host (hd p))
               then ''sudo'' # p else p)
        [[''sudo'', ''apt'', ''install'', ''sudo''], [''apt-get'', ''install'', ''-y'', ''sudo'']]
     = [[''sudo'', ''apt'', ''install'', ''sudo''],
        [''sudo'', ''apt-get'', ''install'', ''-y'', ''sudo'']]"
    by code_simp
  show ?thesis
    using a b self_install_rewritten_like_any_other [OF a b, of None] c by simp
qed

text \<open>The claim as stated fails: with the elevation tool available,
  \<open>"apt-get install -y sudo"\<close> matches the self-install predicate and is rewritten to
  \<open>"sudo apt-get install -y sudo"\<close>.\<close>

theorem self_install_counterexample:
  "is_installing_sudo (Str ''apt-get install -y sudo'')
   \<and> final_cmd unix_host None (Str ''apt-get install -y sudo'')
       = Inr (Str ''sudo apt-get install -y sudo'', Some True)"
  by code_simp

subsection \<open>The tokenizer on a trailing operator\<close>

text \<open>
  Claim C3 says that the tokenizer returns one operator fewer than segments, no operator
  in trailing position.  On \<open>"a &&"\<close> the code returns the segment \<open>a\<close> and the operator
  \<open>&&\<close>: one segment, one operator.
\<close>

theorem trailing_operator_recorded:
  "parse_command (Str ''a &&'') = ([[''a'']], [''&&''])
   \<and> length (snd (parse_command (Str ''a &&''))) \<noteq> length (fst (parse_command (Str ''a &&''))) - 1"
  by code_simp

subsection \<open>Captured mode with a payload\<close>

lemma map_of_dict_update:
  "map_of e k \<noteq> None \<Longrightarrow> map_of (dict_update d e) k \<noteq> None"
  unfolding dict_update_def
proof (induction e arbitrary: d rule: rev_induct)
  case Nil
  then show ?case by simp
next
  case (snoc x e)
  obtain k' v where x: "x = (k', v)" by (cases x)
  show ?case
  proof (cases "k' = k")
    case True
    then show ?thesis by (simp add: x update_conv')
  next
    case False
    with snoc.prems have "map_of e k \<noteq> None" by (auto simp: x split: if_splits)
    with snoc.IH False show ?thesis by (simp add: x update_conv')
  qed
qed

lemma io_kwargs_input:
  "io_kwargs r = Inr io \<Longrightarrow> payload_truthy (input r) \<Longrightarrow> map_of io ''input'' \<noteq> None"
  by (auto simp: io_kwargs_def Let_def update_conv' delete_conv'
      split: option.splits sum.splits if_splits)

lemma call_duplicate_input:
  "\<not> interactive r \<Longrightarrow> map_of kw ''input'' \<noteq> None \<Longrightarrow>
   call_subprocess_run fx w r fc sh kw =
     (Inl (TypeError ''got multiple values for keyword argument''), w)"
  by (simp add: call_subprocess_run_def)

lemma write_script_calls: "write_script fx w st = (res, w1, sp) \<Longrightarrow> calls w1 = calls w"
  by (auto simp: write_script_def Let_def split: option.splits if_splits)

lemma try_block_duplicate_input:
  assumes "\<not> interactive r" "map_of kw ''input'' \<noteq> None"
  shows "(\<exists>e. fst (try_block fx w r fc kw) = Inl e)
         \<and> calls (snd (try_block fx w r fc kw)) = calls w"
proof (cases "shell_type r")
  case None
  then show ?thesis
    by (simp add: try_block_def call_duplicate_input [OF assms])
next
  case (Some st)
  obtain res w1 sp where ws: "write_script fx w st = (res, w1, sp)"
    by (cases "write_script fx w st") auto
  have c1: "calls w1 = calls w" using ws by (rule write_script_calls)
  show ?thesis
    using c1 by (cases res; cases sp)
      (simp_all add: try_block_def Some ws call_duplicate_input [OF assms])
qed

text \<open>
  Claim C6 says that a captured-mode call with a textual payload runs the process with the
  payload on its standard input.  In the code \<open>io_kwargs\<close> receives the key \<open>input\<close>, the
  dictionary is merged into \<open>kwargs\<close>, and the captured-mode call passes \<open>input=input\<close>
  next to \<open>**kwargs\<close>: every such call with a non-empty text ends in an error, and
  \<open>subprocess.run\<close> is never called.
\<close>

theorem captured_payload_never_runs:
  assumes "\<not> interactive r" "input r = Some (Text s)" "s \<noteq> []"
  shows "(\<exists>e. fst (run_subprocess h fx c w r) = Inl e)
         \<and> calls (snd (run_subprocess h fx c w r)) = calls w"
proof -
  have t: "payload_truthy (input r)" using assms by (simp add: payload_truthy_def)
  show ?thesis
  proof (cases "final_cmd h c (cmd r)")
    case (Inl e)
    then show ?thesis by (simp add: run_subprocess_def)
  next
    case (Inr x)
    obtain fc c' where x: "x = (fc, c')" by (cases x)
    show ?thesis
    proof (cases "io_kwargs r")
      case (Inl e)
      then show ?thesis by (simp add: run_subprocess_def Inr x)
    next
      case io: (Inr io)
      have "map_of (dict_update (kwargs r) io) ''input'' \<noteq> None"
        by (rule map_of_dict_update) (rule io_kwargs_input [OF io t])
      note tb = try_block_duplicate_input [OF assms(1) this]
      show ?thesis
        using tb by (cases fc) (auto simp: run_subprocess_def Inr x io Let_def split: sum.splits)
    qed
  qed
qed

theorem captured_payload_never_runs_witness:
  "\<not> interactive ((plain_request ''cat'')\<lparr>input := Some (Text ''y'')\<rparr>)
   \<and> input ((plain_request ''cat'')\<lparr>input := Some (Text ''y'')\<rparr>) = Some (Text ''y'')
   \<and> ''y'' \<noteq> []
   \<and> run_subprocess unix_host quiet_os None empty_world
        ((plain_request ''cat'')\<lparr>input := Some (Text ''y'')\<rparr>)
      = (Inl (TypeError ''got multiple values for keyword argument''), empty_world)"
proof -
  have e: "run_subprocess unix_host quiet_os None empty_world
        ((plain_request ''cat'')\<lparr>input := Some (Text ''y'')\<rparr>)
      = (Inl (TypeError ''got multiple values for keyword argument''), empty_world)"
    by code_simp
  show ?thesis
    using e captured_payload_never_runs [of "(plain_request ''cat'')\<lparr>input := Some (Text ''y'')\<rparr>"
        "''y''" unix_host quiet_os None empty_world]
    by (simp add: plain_request_def)
qed

subsection \<open>Removal of the script file\<close>





subsection \<open>The tokenizer, word by word\<close>

lemma isspace_SP [simp]: "isspace SP" by (simp add: isspace_def)
lemma isspace_NL [simp]: "isspace NL" by (simp add: isspace_def)
lemma not_isspace_quotes [simp]: "\<not> isspace SQ" "\<not> isspace DQ" by (simp_all add: isspace_def)

lemma nspaced_append: "nspaced a \<Longrightarrow> nspaced b \<Longrightarrow> nspaced (a @ b)"
  by (induction a) (auto split: if_splits)

lemma nspaced_suffix: "nspaced (a @ b) \<Longrightarrow> nspaced b"
  by (induction a) (auto split: if_splits)

lemma nspaced_prefix_space:
  "nspaced (a @ c # cs) \<Longrightarrow> isspace c \<Longrightarrow> nspaced a"
proof (induction a)
  case Nil
  then show ?case by simp
next
  case (Cons x a)
  show ?case
  proof (cases "isspace x")
    case False
    with Cons show ?thesis by simp
  next
    case True
    with Cons.prems have x: "x = SP" and h: "\<not> isspace (hd (a @ c # cs))"
      and n: "nspaced (a @ c # cs)" by simp_all
    from h Cons.prems(2) have ne: "a \<noteq> []" by (cases a) auto
    then have "hd (a @ c # cs) = hd a" by simp
    with h have "\<not> isspace (hd a)" by simp
    with True x ne Cons.IH [OF n Cons.prems(2)] show ?thesis by simp
  qed
qed

lemma nspaced_no_NL: "nspaced s \<Longrightarrow> NL \<notin> set s"
  by (induction s) (auto split: if_splits)

lemma nspaced_spacefree: "\<forall>c\<in>set w. \<not> isspace c \<Longrightarrow> nspaced w"
  by (induction w) auto

lemma join_Cons: "ws \<noteq> [] \<Longrightarrow> join sep (w # ws) = w @ sep @ join sep ws"
  by (cases ws) auto

lemma join_eq_Nil: "join sep ws = [] \<Longrightarrow> \<forall>w\<in>set ws. w \<noteq> [] \<Longrightarrow> ws = []"
  by (induction sep ws rule: join.induct) auto

lemma nspaced_join:
  "list_all wordy ws \<Longrightarrow>
   nspaced (join '' '' ws) \<and> (ws \<noteq> [] \<longrightarrow> join '' '' ws \<noteq> [] \<and> \<not> isspace (hd (join '' '' ws)))"
proof (induction ws)
  case Nil
  then show ?case by simp
next
  case (Cons w ws)
  then have w: "w \<noteq> []" "\<not> isspace (hd w)" "nspaced w" by (simp_all add: wordy_def)
  show ?case
  proof (cases ws)
    case Nil
    then show ?thesis using w by simp
  next
    case (Cons v vs)
    with Cons.IH Cons.prems have r: "nspaced (join '' '' ws)"
      and h: "join '' '' ws \<noteq> []" "\<not> isspace (hd (join '' '' ws))" by simp_all
    have j: "join '' '' (w # ws) = w @ SP # join '' '' ws" using Cons by simp
    have "nspaced (SP # join '' '' ws)" using r h by simp
    then have "nspaced (w @ SP # join '' '' ws)" using w(3) by (rule nspaced_append [rotated])
    then show ?thesis using w j by simp
  qed
qed

lemma replace_continuation_id: "NL \<notin> set s \<Longrightarrow> replace_continuation s = s"
  by (induction s rule: replace_continuation.induct) auto

lemma split_ws_words:
  "\<forall>c\<in>set w. \<not> isspace c \<Longrightarrow> v \<in> set (split_ws w cs) \<Longrightarrow>
   v \<noteq> [] \<and> (\<forall>c\<in>set v. \<not> isspace c)"
proof (induction cs arbitrary: w)
  case Nil
  then show ?case by (auto split: if_splits)
next
  case (Cons c cs)
  show ?case
  proof (cases "isspace c")
    case False
    with Cons.prems have "\<forall>x\<in>set (w @ [c]). \<not> isspace x" "v \<in> set (split_ws (w @ [c]) cs)"
      by auto
    then show ?thesis by (rule Cons.IH)
  next
    case True
    have e: "\<forall>x\<in>set ([]::string). \<not> isspace x" by simp
    from True Cons.prems(2) have "v \<in> set (split_ws [] cs) \<or> (v = w \<and> w \<noteq> [])"
      by (auto split: if_splits)
    then show ?thesis
    proof
      assume "v \<in> set (split_ws [] cs)"
      with e show ?thesis by (rule Cons.IH)
    next
      assume "v = w \<and> w \<noteq> []"
      with Cons.prems(1) show ?thesis by simp
    qed
  qed
qed

lemma spacefree_wordy: "w \<noteq> [] \<Longrightarrow> \<forall>c\<in>set w. \<not> isspace c \<Longrightarrow> wordy w"
  by (cases w) (auto simp: wordy_def nspaced_spacefree)

lemma py_split_wordy: "list_all wordy (py_split s)"
  unfolding py_split_def list_all_iff
proof
  fix v assume "v \<in> set (split_ws [] s)"
  with split_ws_words [of "[]" v s] show "wordy v" by (simp add: spacefree_wordy)
qed

lemma join_Nil_iff: "list_all wordy ws \<Longrightarrow> join '' '' ws = [] \<longleftrightarrow> ws = []"
  using nspaced_join [of ws] by auto

lemma norm_ok_join: "list_all wordy ws \<Longrightarrow> norm_ok (join '' '' ws)"
  using nspaced_join [of ws] by (cases ws) (auto simp: norm_ok_def)

lemma norm_ok_normalize: "norm_ok (normalize_whitespace s)"
  unfolding normalize_whitespace_def by (rule norm_ok_join) (rule py_split_wordy)

lemma join_split_ws:
  "nspaced cs \<Longrightarrow> (w = [] \<longrightarrow> cs = [] \<or> \<not> isspace (hd cs)) \<Longrightarrow>
   join '' '' (split_ws w cs) = w @ cs"
proof (induction cs arbitrary: w)
  case Nil
  then show ?case by simp
next
  case (Cons c cs)
  show ?case
  proof (cases "isspace c")
    case False
    with Cons.prems have "nspaced cs" by simp
    from Cons.IH [OF this, of "w @ [c]"] False show ?thesis by simp
  next
    case True
    with Cons.prems have c: "c = SP" and ne: "cs \<noteq> []" and h: "\<not> isspace (hd cs)"
      and n: "nspaced cs" and w: "w \<noteq> []" by auto
    from Cons.IH [OF n, of "[]"] ne h have j: "join '' '' (split_ws [] cs) = cs" by simp
    with ne have "split_ws [] cs \<noteq> []" by auto
    then show ?thesis using True w c j by (simp add: join_Cons)
  qed
qed

lemma normalize_id: "norm_ok s \<Longrightarrow> normalize_whitespace s = s"
  unfolding normalize_whitespace_def norm_ok_def
  using join_split_ws [of s "[]"]
  by (auto simp: replace_continuation_id nspaced_no_NL py_split_def)

lemma scan_word_append:
  "scan_word q (a @ b) = (case scan_word q a of None \<Rightarrow> None | Some q' \<Rightarrow> scan_word q' b)"
  by (induction a arbitrary: q) auto

lemma closed_openw: "closed w \<Longrightarrow> openw w"
  by (simp add: closed_def openw_def)

lemma valid_words_Cons: "closed w \<Longrightarrow> valid_words ws \<Longrightarrow> valid_words (w # ws)"
  by (cases ws) (auto simp: closed_openw)

lemma valid_words_tl: "valid_words (w # ws) \<Longrightarrow> valid_words ws"
  by (cases ws) auto

lemma valid_words_all_closed: "list_all closed ws \<Longrightarrow> valid_words ws"
  by (induction ws) (auto intro: valid_words_Cons)

lemma valid_words_append: "list_all closed a \<Longrightarrow> valid_words b \<Longrightarrow> valid_words (a @ b)"
  by (induction a) (auto intro: valid_words_Cons)

lemma valid_words_split:
  "valid_words (a @ b) \<Longrightarrow> b \<noteq> [] \<Longrightarrow> list_all closed a \<and> valid_words b"
proof (induction a)
  case Nil
  then show ?case by simp
next
  case (Cons x a)
  from Cons.prems(2) obtain y ys where "a @ b = y # ys" by (cases "a @ b") auto
  with Cons.prems have "closed x" "valid_words (a @ b)" by auto
  with Cons.IH Cons.prems(2) show ?case by simp
qed

lemma valid_words_filter: "valid_words ws \<Longrightarrow> valid_words (filter P ws)"
proof (induction ws rule: valid_words.induct)
  case 1
  then show ?case by simp
next
  case (2 w)
  then show ?case by simp
next
  case (3 w v vs)
  then have "closed w" "valid_words (filter P (v # vs))" by simp_all
  then show ?case by (cases "P w") (auto intro: valid_words_Cons simp del: valid_words.simps)
qed

lemma words_of_word:
  "scan_word q w = Some q' \<Longrightarrow> words_of q cur (w @ rest) = words_of q' (cur @ w) rest"
proof (induction w arbitrary: q cur)
  case Nil
  then show ?case by simp
next
  case (Cons c w)
  then show ?case by (auto split: if_splits)
qed

lemma words_of_join: "valid_words ws \<Longrightarrow> words_of None [] (join '' '' ws) = ws"
proof (induction ws rule: valid_words.induct)
  case 1
  then show ?case by simp
next
  case (2 w)
  then obtain q' where q: "scan_word None w = Some q'" and ne: "w \<noteq> []"
    by (auto simp: openw_def)
  from words_of_word [OF q, of "[]" "[]"] ne show ?case by simp
next
  case (3 w v vs)
  then have q: "scan_word None w = Some None" and ne: "w \<noteq> []"
    and ih: "words_of None [] (join '' '' (v # vs)) = v # vs"
    by (simp_all add: closed_def)
  have "words_of None [] (join '' '' (w # v # vs))
        = words_of None [] (w @ SP # join '' '' (v # vs))" by simp
  also have "\<dots> = words_of None w (SP # join '' '' (v # vs))"
    using words_of_word [OF q, of "[]"] by simp
  also have "\<dots> = w # words_of None [] (join '' '' (v # vs))" using ne by simp
  finally show ?case using ih by simp
qed

lemma join_words_of:
  "nspaced cs \<Longrightarrow> (cur = [] \<longrightarrow> cs = [] \<or> \<not> isspace (hd cs)) \<Longrightarrow>
   join '' '' (words_of q cur cs) = cur @ cs"
proof (induction cs arbitrary: q cur)
  case Nil
  then show ?case by simp
next
  case (Cons c cs)
  have n: "nspaced cs" using Cons.prems(1) by (simp split: if_splits)
  show ?case
  proof (cases "isspace c \<and> q = None")
    case False
    then have "words_of q cur (c # cs) = words_of (if (c = SQ \<or> c = DQ) \<and> (q = None \<or> q = Some c) then (if q = None then Some c else None) else q) (cur @ [c]) cs"
      by auto
    with Cons.IH [OF n, of "cur @ [c]"] show ?thesis by simp
  next
    case True
    then have sp: "isspace c" and q: "q = None" by simp_all
    with Cons.prems have c: "c = SP" and ne: "cs \<noteq> []" and h: "\<not> isspace (hd cs)"
      and w: "cur \<noteq> []" by auto
    from Cons.IH [OF n, of "[]" None] ne h have j: "join '' '' (words_of None [] cs) = cs"
      by simp
    with ne have "words_of None [] cs \<noteq> []" by auto
    moreover have "words_of q cur (c # cs) = cur # words_of None [] cs"
      using sp q w c by simp
    ultimately show ?thesis using c j by (simp add: join_Cons)
  qed
qed

lemma words_of_valid:
  "scan_word None cur = Some q \<Longrightarrow> valid_words (words_of q cur cs)"
proof (induction cs arbitrary: q cur)
  case Nil
  then show ?case by (simp add: openw_def)
next
  case (Cons c cs)
  show ?case
  proof (cases "(c = SQ \<or> c = DQ) \<and> (q = None \<or> q = Some c)")
    case True
    then have "scan_word None (cur @ [c]) = Some (if q = None then Some c else None)"
      using Cons.prems by (simp add: scan_word_append)
    from Cons.IH [OF this] True show ?thesis by simp
  next
    case nt: False
    show ?thesis
    proof (cases "isspace c \<and> q = None")
      case True
      have e: "valid_words (words_of None [] cs)" by (rule Cons.IH) simp
      show ?thesis
      proof (cases "cur = []")
        case True
        with \<open>isspace c \<and> q = None\<close> nt e show ?thesis by simp
      next
        case False
        with Cons.prems True have "closed cur" by (simp add: closed_def)
        from valid_words_Cons [OF this e] False True nt show ?thesis by simp
      qed
    next
      case False
      then have "scan_word None (cur @ [c]) = Some q"
        using Cons.prems nt by (auto simp: scan_word_append)
      from Cons.IH [OF this] False nt show ?thesis by auto
    qed
  qed
qed

lemma words_of_wordy:
  "nspaced (cur @ cs) \<Longrightarrow> (cur @ cs \<noteq> [] \<longrightarrow> \<not> isspace (hd (cur @ cs))) \<Longrightarrow>
   list_all wordy (words_of q cur cs)"
proof (induction cs arbitrary: q cur)
  case Nil
  then show ?case by (simp add: wordy_def)
next
  case (Cons c cs)
  have app: "nspaced ((cur @ [c]) @ cs)" "(cur @ [c]) @ cs \<noteq> [] \<longrightarrow> \<not> isspace (hd ((cur @ [c]) @ cs))"
    using Cons.prems by (cases cur; simp)+
  show ?case
  proof (cases "isspace c \<and> q = None \<and> \<not> ((c = SQ \<or> c = DQ) \<and> (q = None \<or> q = Some c))")
    case False
    then have "words_of q cur (c # cs) = words_of (if (c = SQ \<or> c = DQ) \<and> (q = None \<or> q = Some c) then (if q = None then Some c else None) else q) (cur @ [c]) cs"
      by auto
    with Cons.IH [OF app] show ?thesis by simp
  next
    case True
    then have sp: "isspace c" and q: "q = None" by simp_all
    have ne: "cur \<noteq> []" using Cons.prems(2) sp by (cases cur) auto
    have n1: "nspaced cur" using nspaced_prefix_space [OF Cons.prems(1) sp] .
    have "nspaced (c # cs)" using nspaced_suffix [OF Cons.prems(1)] .
    with sp have n2: "nspaced ([] @ cs)" and h2: "[] @ cs \<noteq> [] \<longrightarrow> \<not> isspace (hd ([] @ cs))" by simp_all
    have "wordy cur" using ne n1 Cons.prems(2) by (simp add: wordy_def)
    moreover have "list_all wordy (words_of None [] cs)" by (rule Cons.IH [OF n2 h2])
    moreover have "c \<noteq> SQ" "c \<noteq> DQ" using sp by auto
    ultimately show ?thesis using sp q ne by simp
  qed
qed

lemma isspace_not_quote: "isspace c \<Longrightarrow> c \<noteq> SQ \<and> c \<noteq> DQ"
  by auto

lemma scan_as_words:
  assumes "in_quotes st \<longleftrightarrow> quote_char st \<noteq> None"
    and "nspaced cs"
    and "current_word st = [] \<longrightarrow> cs = [] \<longrightarrow> current_part st = []"
  shows "scan_finish (foldl scan_char st cs) =
         group_result (foldl gstep (parts st, separators st, current_part st)
                        (words_of (quote_char st) (current_word st) cs))"
  using assms
proof (induction cs arbitrary: st)
  case Nil
  then show ?case by (simp add: scan_finish_def Let_def)
next
  case (Cons c cs)
  have n: "nspaced cs" using Cons.prems(2) by (simp split: if_splits)
  let ?st = "scan_char st c"
  show ?case
  proof (cases "(c = SQ \<or> c = DQ) \<and> (quote_char st = None \<or> quote_char st = Some c)")
    case True
    have i: "in_quotes ?st \<longleftrightarrow> quote_char ?st \<noteq> None"
      using True Cons.prems(1) by (auto simp: scan_char_def)
    have w: "current_word ?st = [] \<longrightarrow> cs = [] \<longrightarrow> current_part ?st = []"
      using True Cons.prems(1) by (auto simp: scan_char_def)
    have f: "parts ?st = parts st" "separators ?st = separators st"
      "current_part ?st = current_part st" "current_word ?st = current_word st @ [c]"
      "quote_char ?st = (if quote_char st = None then Some c else None)"
      using True Cons.prems(1) by (auto simp: scan_char_def)
    from Cons.IH [OF i n w] True show ?thesis by (simp add: f)
  next
    case nt: False
    show ?thesis
    proof (cases "isspace c \<and> quote_char st = None")
      case False
      have f: "parts ?st = parts st" "separators ?st = separators st"
        "current_part ?st = current_part st" "current_word ?st = current_word st @ [c]"
        "quote_char ?st = quote_char st" "in_quotes ?st = in_quotes st"
        using False nt Cons.prems(1) by (auto simp: scan_char_def)
      have i: "in_quotes ?st \<longleftrightarrow> quote_char ?st \<noteq> None" using Cons.prems(1) by (simp add: f)
      have w: "current_word ?st = [] \<longrightarrow> cs = [] \<longrightarrow> current_part ?st = []" by (simp add: f)
      from Cons.IH [OF i n w] False nt show ?thesis by (auto simp: f)
    next
      case True
      then have sp: "isspace c" and q: "quote_char st = None" by simp_all
      have niq: "\<not> in_quotes st" using q Cons.prems(1) by simp
      have ne: "cs \<noteq> []" using Cons.prems(2) sp by simp
      have f: "quote_char ?st = None" "in_quotes ?st = False" "current_word ?st = []"
        using sp q niq isspace_not_quote [OF sp] by (auto simp: scan_char_def)
      have i: "in_quotes ?st \<longleftrightarrow> quote_char ?st \<noteq> None" by (simp add: f)
      have w: "current_word ?st = [] \<longrightarrow> cs = [] \<longrightarrow> current_part ?st = []" using ne by simp
      have g: "(parts ?st, separators ?st, current_part ?st) =
               (if current_word st = [] then (parts st, separators st, current_part st)
                else gstep (parts st, separators st, current_part st) (current_word st))"
        using sp q niq isspace_not_quote [OF sp] by (auto simp: scan_char_def)
      have "words_of (quote_char st) (current_word st) (c # cs) =
            (if current_word st = [] then words_of None [] cs
             else current_word st # words_of None [] cs)"
        using sp q isspace_not_quote [OF sp] by simp
      with Cons.IH [OF i n w] g show ?thesis by (simp add: f)
    qed
  qed
qed

lemma parse_command_words:
  "NL \<notin> set s \<Longrightarrow>
   parse_command (Str s) = group_result (foldl gstep ([], [], []) (words_of None [] (normalize_whitespace s)))"
proof -
  assume "NL \<notin> set s"
  moreover have "nspaced (normalize_whitespace s)" using norm_ok_normalize [of s] by (simp add: norm_ok_def)
  ultimately show ?thesis
    using scan_as_words [of scan_init "normalize_whitespace s"]
    by (simp add: parse_command_def scan_init_def)
qed

lemma gstep_ginv: "ginv T \<Longrightarrow> ginv (gstep T w)"
  by (cases T) auto

lemma foldl_gstep_ginv: "ginv T \<Longrightarrow> ginv (foldl gstep T ws)"
proof (induction ws arbitrary: T)
  case Nil
  then show ?case by simp
next
  case (Cons w ws)
  from Cons.IH [OF gstep_ginv [OF Cons.prems]] show ?case by simp
qed

lemma gstep_gcontent: "gcontent (gstep T w) = gcontent T @ (if nonop w then [w] else [])"
  by (cases T) auto

lemma foldl_gstep_gcontent: "gcontent (foldl gstep T ws) = gcontent T @ filter nonop ws"
  by (induction ws arbitrary: T) (auto simp: gstep_gcontent simp del: gstep.simps gcontent.simps)

lemma group_parts_props:
  assumes "ginv T"
  shows "\<forall>p\<in>set (group_parts T). p \<noteq> [] \<and> (\<forall>w\<in>set p. nonop w)"
    and "concat (group_parts T) = gcontent T"
    and "set (fst (snd T)) \<subseteq> set chain_operators"
    and "length (group_parts T) \<le> length (fst (snd T)) + 1"
    and "length (fst (snd T)) \<le> length (group_parts T)"
    and "filter (\<lambda>p. p \<noteq> []) (fst (group_result T)) = group_parts T"
    and "snd (group_result T) = fst (snd T)"
    and "fst (group_result T) = (if group_parts T = [] then [[]] else group_parts T)"
  using assms by (cases T; auto intro!: filter_True)+

lemma foldl_gstep_nonop:
  "\<forall>w\<in>set p. nonop w \<Longrightarrow> foldl gstep (A, S, cp) p = (A, S, cp @ p)"
  by (induction p arbitrary: cp) auto

lemma foldl_gstep_reconstruct:
  assumes "\<forall>p\<in>set ps. p \<noteq> [] \<and> (\<forall>w\<in>set p. nonop w)"
    and "set seps \<subseteq> set chain_operators"
    and "k + length ps \<le> length seps"
    and "cp \<noteq> []"
  shows "foldl gstep (A, S, cp) (reconstruct (Suc k) ps seps) =
         (A @ butlast (cp # ps), S @ take (length ps) (drop k seps), last (cp # ps))"
  using assms
proof (induction ps arbitrary: k A S cp)
  case Nil
  then show ?case by simp
next
  case (Cons p rest)
  have k: "k < length seps" using Cons.prems(3) by simp
  then have op: "seps ! k \<in> set chain_operators" using Cons.prems(2) by auto
  have p: "p \<noteq> []" "\<forall>w\<in>set p. nonop w" using Cons.prems(1) by simp_all
  have d: "drop k seps = seps ! k # drop (Suc k) seps" using k by (simp add: Cons_nth_drop_Suc)
  have "foldl gstep (A, S, cp) (reconstruct (Suc k) (p # rest) seps)
        = foldl gstep (foldl gstep (gstep (A, S, cp) (seps ! k)) p)
            (reconstruct (Suc (Suc k)) rest seps)"
    using k by simp
  also have "gstep (A, S, cp) (seps ! k) = (A @ [cp], S @ [seps ! k], [])"
    using op Cons.prems(4) by simp
  also have "foldl gstep (A @ [cp], S @ [seps ! k], []) p = (A @ [cp], S @ [seps ! k], p)"
    using foldl_gstep_nonop [OF p(2), of "A @ [cp]" "S @ [seps ! k]" "[]"] by simp
  also have "foldl gstep (A @ [cp], S @ [seps ! k], p) (reconstruct (Suc (Suc k)) rest seps)
        = ((A @ [cp]) @ butlast (p # rest), (S @ [seps ! k]) @ take (length rest) (drop (Suc k) seps),
           last (p # rest))"
    using Cons.prems by (intro Cons.IH) auto
  finally show ?case by (simp add: d)
qed

lemma group_reconstruct:
  assumes "\<forall>p\<in>set ps. p \<noteq> [] \<and> (\<forall>w\<in>set p. nonop w)"
    and "set seps \<subseteq> set chain_operators"
    and "length ps \<le> length seps + 1"
  shows "group_result (foldl gstep ([], [], []) (reconstruct 0 ps seps)) =
         (if ps = [] then [[]] else ps, take (length ps - 1) seps)"
proof (cases ps)
  case Nil
  then show ?thesis by simp
next
  case (Cons p rest)
  have p: "p \<noteq> []" "\<forall>w\<in>set p. nonop w" using assms(1) Cons by simp_all
  have r: "\<forall>p\<in>set rest. p \<noteq> [] \<and> (\<forall>w\<in>set p. nonop w)" using assms(1) Cons by simp
  have l: "0 + length rest \<le> length seps" using assms(3) Cons by simp
  have "foldl gstep ([], [], []) (reconstruct 0 ps seps)
        = foldl gstep (foldl gstep ([], [], []) p) (reconstruct (Suc 0) rest seps)"
    using Cons by simp
  also have "foldl gstep ([], [], []) p = ([], [], p)"
    using foldl_gstep_nonop [OF p(2), of "[]" "[]" "[]"] by simp
  also have "foldl gstep ([], [], p) (reconstruct (Suc 0) rest seps)
        = ([] @ butlast (p # rest), [] @ take (length rest) (drop 0 seps), last (p # rest))"
    by (rule foldl_gstep_reconstruct [OF r assms(2) l p(1)])
  finally have e: "foldl gstep ([], [], []) (reconstruct 0 ps seps)
        = (butlast (p # rest), take (length rest) seps, last (p # rest))" by simp
  have ln: "last (p # rest) \<noteq> []" using p(1) r by (cases rest rule: rev_cases) auto
  have b: "butlast (p # rest) @ [last (p # rest)] = p # rest"
    by (rule append_butlast_last_id) simp
  have "group_result (foldl gstep ([], [], []) (reconstruct 0 ps seps))
        = group_result (butlast (p # rest), take (length rest) seps, last (p # rest))"
    by (simp only: e)
  also have "\<dots> = (butlast (p # rest) @ [last (p # rest)], take (length rest) seps)"
    using ln by (simp del: butlast.simps last.simps)
  finally show ?thesis using Cons by (simp only: b) simp
qed

lemma closed_sudo: "closed ''sudo''" by (simp add: closed_def isspace_def)
lemma wordy_sudo: "wordy ''sudo''" by (simp add: wordy_def isspace_def)
lemma nonop_sudo: "nonop ''sudo''" by (simp add: chain_operators_def)

lemma chain_operators_closed: "w \<in> set chain_operators \<Longrightarrow> closed w \<and> wordy w"
  by (auto simp: chain_operators_def closed_def wordy_def isspace_def)

lemma valid_reconstruct:
  assumes "\<forall>p\<in>set ps. p \<noteq> []" and "valid_words (concat ps)"
    and "set seps \<subseteq> set chain_operators"
  shows "valid_words (reconstruct i ps seps)"
  using assms(1,2)
proof (induction ps arbitrary: i)
  case Nil
  then show ?case by simp
next
  case (Cons p rest)
  let ?pre = "if i > 0 \<and> i - 1 < length seps then [seps ! (i - 1)] else []"
  have pre: "list_all closed ?pre" using assms(3) chain_operators_closed by (auto simp: subset_iff)
  show ?case
  proof (cases rest)
    case Nil
    with Cons.prems have "valid_words p" by simp
    with pre have "valid_words (?pre @ p)" by (rule valid_words_append)
    then show ?thesis using Nil by simp
  next
    case (Cons q qs)
    then have "concat rest \<noteq> []" using Cons.prems(1) by auto
    with Cons.prems(2) have c: "list_all closed p" and v: "valid_words (concat rest)"
      using valid_words_split [of p "concat rest"] by simp_all
    have "valid_words (reconstruct (Suc i) rest seps)"
      using Cons.prems(1) v by (intro Cons.IH) auto
    with c have "valid_words (p @ reconstruct (Suc i) rest seps)" by (rule valid_words_append)
    with pre have "valid_words (?pre @ p @ reconstruct (Suc i) rest seps)"
      by (rule valid_words_append)
    then show ?thesis by simp
  qed
qed

lemma wordy_reconstruct:
  assumes "list_all wordy (concat ps)" and "set seps \<subseteq> set chain_operators"
  shows "list_all wordy (reconstruct i ps seps)"
  using assms(1)
proof (induction ps arbitrary: i)
  case Nil
  then show ?case by simp
next
  case (Cons p rest)
  have "i > 0 \<and> i - 1 < length seps \<Longrightarrow> wordy (seps ! (i - 1))"
    using assms(2) chain_operators_closed by (auto simp: subset_iff)
  with Cons show ?case by auto
qed

lemma valid_concat_map:
  assumes "\<forall>p. f p = p \<or> f p = ''sudo'' # p"
  shows "\<forall>p\<in>set ps. p \<noteq> [] \<Longrightarrow> valid_words (concat ps) \<Longrightarrow> valid_words (concat (map f ps))"
proof (induction ps)
  case Nil
  then show ?case by simp
next
  case (Cons p rest)
  have fp: "f p = p \<or> f p = ''sudo'' # p" using assms by simp
  show ?case
  proof (cases rest)
    case Nil
    with Cons.prems have "valid_words p" by simp
    with fp valid_words_Cons [OF closed_sudo, of p] have "valid_words (f p)" by auto
    then show ?thesis using Nil by simp
  next
    case (Cons q qs)
    then have "concat rest \<noteq> []" using Cons.prems(1) by auto
    with Cons.prems(2) have c: "list_all closed p" and v: "valid_words (concat rest)"
      using valid_words_split [of p "concat rest"] by simp_all
    from c fp have "list_all closed (f p)" by (auto simp: closed_sudo)
    moreover have "valid_words (concat (map f rest))" using Cons.prems(1) v by (intro Cons.IH) auto
    ultimately show ?thesis by (simp add: valid_words_append)
  qed
qed

lemma wordy_concat_map:
  assumes "\<forall>p. f p = p \<or> f p = ''sudo'' # p" and "list_all wordy (concat ps)"
  shows "list_all wordy (concat (map f ps))"
  using assms(2)
proof (induction ps)
  case Nil
  then show ?case by simp
next
  case (Cons p rest)
  have "f p = p \<or> f p = ''sudo'' # p" using assms(1) by simp
  with Cons show ?case by (auto simp: wordy_sudo)
qed

lemma parse_structure:
  assumes "NL \<notin> set s" and "parse_command (Str s) = (ps, seps)"
  defines "pn \<equiv> filter (\<lambda>p. p \<noteq> []) ps"
  shows "ps = (if pn = [] then [[]] else pn)"
    and "\<forall>p\<in>set pn. p \<noteq> [] \<and> (\<forall>w\<in>set p. nonop w)"
    and "set seps \<subseteq> set chain_operators"
    and "length pn \<le> length seps + 1"
    and "length seps \<le> length pn"
    and "valid_words (concat pn)"
    and "list_all wordy (concat pn)"
proof -
  let ?W = "words_of None [] (normalize_whitespace s)"
  let ?T = "foldl gstep ([], [], []) ?W"
  have inv: "ginv ?T" by (rule foldl_gstep_ginv) simp
  have pr: "group_result ?T = (ps, seps)"
    using parse_command_words [OF assms(1)] assms(2) by simp
  note props = group_parts_props [OF inv]
  have pn: "pn = group_parts ?T" using props(6) pr by (simp add: pn_def)
  have seps: "seps = fst (snd ?T)" using props(7) pr by simp
  show "ps = (if pn = [] then [[]] else pn)" using props(8) pr pn by simp
  show "\<forall>p\<in>set pn. p \<noteq> [] \<and> (\<forall>w\<in>set p. nonop w)" using props(1) pn by simp
  show "set seps \<subseteq> set chain_operators" using props(3) seps by simp
  show "length pn \<le> length seps + 1" using props(4) pn seps by simp
  show "length seps \<le> length pn" using props(5) pn seps by simp
  have c: "concat pn = filter nonop ?W"
    using props(2) foldl_gstep_gcontent [of "([], [], [])" ?W] pn by simp
  have "valid_words ?W" by (rule words_of_valid) simp
  then show "valid_words (concat pn)" unfolding c by (rule valid_words_filter)
  have n: "norm_ok (normalize_whitespace s)" by (rule norm_ok_normalize)
  have "list_all wordy ?W"
    by (rule words_of_wordy) (use n in \<open>simp_all add: norm_ok_def\<close>)
  then show "list_all wordy (concat pn)" unfolding c by (simp add: list_all_iff)
qed

lemma retokenize:
  assumes "NL \<notin> set s" and "parse_command (Str s) = (ps, seps)"
    and f: "\<forall>p. f p = p \<or> f p = ''sudo'' # p"
  defines "pn \<equiv> filter (\<lambda>p. p \<noteq> []) ps"
  shows "parse_command (Str (join '' '' (reconstruct 0 (map f pn) seps))) =
         (if pn = [] then [[]] else map f pn, take (length pn - 1) seps)"
proof -
  note st = parse_structure [OF assms(1,2), folded pn_def]
  let ?R = "reconstruct 0 (map f pn) seps"
  have fp: "\<And>p. f p = p \<or> f p = ''sudo'' # p" using f by simp
  have p1: "\<forall>p\<in>set (map f pn). p \<noteq> [] \<and> (\<forall>w\<in>set p. nonop w)"
  proof
    fix p' assume "p' \<in> set (map f pn)"
    then obtain p where p: "p \<in> set pn" "p' = f p" by auto
    with st(2) have "p \<noteq> []" "\<forall>w\<in>set p. nonop w" by simp_all
    with fp [of p] p(2) nonop_sudo show "p' \<noteq> [] \<and> (\<forall>w\<in>set p'. nonop w)" by auto
  qed
  have p1': "\<forall>p\<in>set (map f pn). p \<noteq> []" using p1 by simp
  have pn_ne: "\<forall>p\<in>set pn. p \<noteq> []" using st(2) by simp
  have v: "valid_words ?R"
    by (rule valid_reconstruct [OF p1' valid_concat_map [OF f pn_ne st(6)] st(3)])
  have w: "list_all wordy ?R"
    by (rule wordy_reconstruct [OF wordy_concat_map [OF f st(7)] st(3)])
  have n: "norm_ok (join '' '' ?R)" by (rule norm_ok_join [OF w])
  then have nl: "NL \<notin> set (join '' '' ?R)" by (simp add: norm_ok_def nspaced_no_NL)
  have "parse_command (Str (join '' '' ?R))
        = group_result (foldl gstep ([], [], []) (words_of None [] (normalize_whitespace (join '' '' ?R))))"
    by (rule parse_command_words [OF nl])
  also have "normalize_whitespace (join '' '' ?R) = join '' '' ?R" by (rule normalize_id [OF n])
  also have "words_of None [] (join '' '' ?R) = ?R" by (rule words_of_join [OF v])
  also have "group_result (foldl gstep ([], [], []) ?R)
        = (if map f pn = [] then [[]] else map f pn, take (length (map f pn) - 1) seps)"
    by (rule group_reconstruct [OF p1 st(3)]) (use st(4) in simp)
  finally show ?thesis by simp
qed

subsection \<open>Re-tokenizing\<close>

text \<open>
  Claim C9.  For every single-line text in which the tokenizer finds no chain operator,
  the result is one segment, and joining its tokens with single spaces and tokenizing the
  joined text again gives that same segment and no operator.
\<close>

theorem rejoined_segment_retokenizes:
  assumes "NL \<notin> set s" and "snd (parse_command (Str s)) = []"
  shows "\<exists>seg. fst (parse_command (Str s)) = [seg]
           \<and> parse_command (Str (join '' '' seg)) = ([seg], [])"
proof -
  obtain ps where p: "parse_command (Str s) = (ps, [])"
    using assms(2) by (cases "parse_command (Str s)") auto
  let ?pn = "filter (\<lambda>p. p \<noteq> []) ps"
  note st = parse_structure [OF assms(1) p]
  have id: "\<forall>p::string list. (\<lambda>p. p) p = p \<or> (\<lambda>p. p) p = ''sudo'' # p" by simp
  note rt = retokenize [OF assms(1) p id]
  show ?thesis
  proof (cases ?pn)
    case Nil
    with st(1) have "ps = [[]]" by simp
    moreover have "parse_command (Str (join '' '' [])) = ([[]], [])" using rt Nil by simp
    ultimately show ?thesis using p by simp
  next
    case (Cons seg rest)
    with st(4) have r: "rest = []" by simp
    with Cons st(1) have "ps = [seg]" by simp
    moreover have "parse_command (Str (join '' '' seg)) = ([seg], [])"
      using rt Cons r by simp
    ultimately show ?thesis using p by simp
  qed
qed

theorem rejoined_segment_retokenizes_witness:
  "NL \<notin> set (''echo '' @ [SQ] @ ''a  b'' @ [SQ])
   \<and> snd (parse_command (Str (''echo '' @ [SQ] @ ''a  b'' @ [SQ]))) = []
   \<and> fst (parse_command (Str (''echo '' @ [SQ] @ ''a  b'' @ [SQ]))) = [[''echo'', [SQ] @ ''a b'' @ [SQ]]]
   \<and> parse_command (Str (join '' '' [''echo'', [SQ] @ ''a b'' @ [SQ]]))
       = ([[''echo'', [SQ] @ ''a b'' @ [SQ]]], [])"
proof -
  have a: "NL \<notin> set (''echo '' @ [SQ] @ ''a  b'' @ [SQ])" by simp
  have b: "snd (parse_command (Str (''echo '' @ [SQ] @ ''a  b'' @ [SQ]))) = []" by code_simp
  have c: "fst (parse_command (Str (''echo '' @ [SQ] @ ''a  b'' @ [SQ])))
           = [[''echo'', [SQ] @ ''a b'' @ [SQ]]]" by code_simp
  show ?thesis
    using a b c rejoined_segment_retokenizes [OF a b] by auto
qed

subsection \<open>The rewrite of a chain\<close>

lemma unix_rewrite_cases: "unix_rewrite h a p = p \<or> unix_rewrite h a p = ''sudo'' # p"
  by (simp add: unix_rewrite_def)



lemma final_cmd_Str_unix:
  assumes "\<not> os_nt h" and "parse_command (Str s) = (ps, seps)"
  shows "final_cmd h c (Str s) =
         Inr (Str (join '' '' (reconstruct 0
                (map (unix_rewrite h (fst (is_sudo_available h c))) (filter (\<lambda>p. p \<noteq> []) ps)) seps)),
              snd (process_parts h c ps))"
  using parse_command_parts_nonempty [of "Str s"] process_parts_unix [OF assms(1), of c ps] assms(2)
  by (simp add: final_cmd_def split_def Let_def)



subsection \<open>Idempotence of the rewrite\<close>

lemma lower_sudo: "lower ''sudo'' = ''sudo''"
  by code_simp

lemma lower_char_NL: "lower_char NL = NL"
  by code_simp

lemma unix_rewrite_idem: "unix_rewrite h a (unix_rewrite h a p) = unix_rewrite h a p"
  by (simp add: unix_rewrite_def lower_sudo del: needs_sudo_parts.simps)

lemma unix_rewrite_nonempty: "p \<noteq> [] \<Longrightarrow> unix_rewrite h a p \<noteq> []"
  by (simp add: unix_rewrite_def)

lemma reconstruct_take:
  "i + length ps \<le> Suc n \<Longrightarrow> reconstruct i ps (take n seps) = reconstruct i ps seps"
proof (induction ps arbitrary: i)
  case Nil
  then show ?case by simp
next
  case (Cons p ps)
  then have "i - 1 < n \<or> i = 0" by auto
  moreover have "reconstruct (Suc i) ps (take n seps) = reconstruct (Suc i) ps seps"
    using Cons.prems by (intro Cons.IH) simp
  ultimately show ?case by auto
qed

lemma final_cmd_Lst_unix:
  assumes "\<not> os_nt h"
  shows "final_cmd h c (Lst ws) =
         Inr (Lst (unix_rewrite h (fst (is_sudo_available h c)) ws), snd (process_parts h c [ws]))"
  using process_parts_unix [OF assms, of c "[ws]"]
  by (cases "ws = []")
     (simp_all add: final_cmd_def parse_command_def split_def Let_def unix_rewrite_def
        del: process_parts.simps needs_sudo_parts.simps)

lemma multiline_stable:
  assumes "\<not> os_nt h" and "NL \<in> set s"
  shows "unix_rewrite h a [''sudo'' @ '' '' @ s] = [''sudo'' @ '' '' @ s]"
proof -
  let ?w = "''sudo'' @ '' '' @ s"
  have nl: "NL \<in> set (lower ?w)"
    using assms(2) lower_char_NL by (force simp: lower_def)
  have 1: "lower ?w \<notin> set sudo_commands"
  proof
    assume "lower ?w \<in> set sudo_commands"
    moreover have "\<forall>x\<in>set sudo_commands. NL \<notin> set x" by (simp add: sudo_commands_def)
    ultimately show False using nl by blast
  qed
  have 2: "lower ?w \<noteq> ''net''" using nl by auto
  have 3: "\<not> not_executable h ?w"
    by (auto simp: not_executable_def path_isabs_def shutil_which_def truthy_def Let_def
        split: option.splits)
  show ?thesis
    using assms(1) 1 2 3 by (simp add: unix_rewrite_def Let_def)
qed


lemma rewrite_twice_Lst:
  assumes "\<not> os_nt h"
  shows "\<exists>cm' c' c''. final_cmd h c (Lst ws) = Inr (cm', c') \<and> final_cmd h c' cm' = Inr (cm', c'')"
proof -
  let ?c1 = "snd (process_parts h c [ws])"
  let ?f = "unix_rewrite h (fst (is_sudo_available h c))"
  have a: "fst (is_sudo_available h ?c1) = fst (is_sudo_available h c)"
    by (rule process_parts_unix_avail [OF assms])
  have 1: "final_cmd h c (Lst ws) = Inr (Lst (?f ws), ?c1)"
    by (rule final_cmd_Lst_unix [OF assms])
  have "final_cmd h ?c1 (Lst (?f ws)) = Inr (Lst (?f (?f ws)), snd (process_parts h ?c1 [?f ws]))"
    using final_cmd_Lst_unix [OF assms, of ?c1 "?f ws"] by (simp only: a)
  then have 2: "final_cmd h ?c1 (Lst (?f ws)) = Inr (Lst (?f ws), snd (process_parts h ?c1 [?f ws]))"
    by (simp only: unix_rewrite_idem)
  from 1 2 show ?thesis by blast
qed

lemma rewrite_twice_single_line:
  assumes "\<not> os_nt h" and "NL \<notin> set s"
  shows "\<exists>cm' c' c''. final_cmd h c (Str s) = Inr (cm', c') \<and> final_cmd h c' cm' = Inr (cm', c'')"
proof -
  obtain ps seps where p: "parse_command (Str s) = (ps, seps)"
    by (cases "parse_command (Str s)") auto
  let ?pn = "filter (\<lambda>p. p \<noteq> []) ps"
  let ?c1 = "snd (process_parts h c ps)"
  let ?f = "unix_rewrite h (fst (is_sudo_available h c))"
  let ?fin = "join '' '' (reconstruct 0 (map ?f ?pn) seps)"
  let ?ps2 = "if ?pn = [] then [[]] else map ?f ?pn"
  let ?seps2 = "take (length ?pn - 1) seps"
  have a: "fst (is_sudo_available h ?c1) = fst (is_sudo_available h c)"
    by (rule process_parts_unix_avail [OF assms(1)])
  have f: "\<forall>p. ?f p = p \<or> ?f p = ''sudo'' # p" using unix_rewrite_cases by simp
  have 1: "final_cmd h c (Str s) = Inr (Str ?fin, ?c1)"
    by (rule final_cmd_Str_unix [OF assms(1) p])
  have p2: "parse_command (Str ?fin) = (?ps2, ?seps2)"
    by (rule retokenize [OF assms(2) p f])
  have ne: "filter (\<lambda>p. p \<noteq> []) ?ps2 = map ?f ?pn"
    by (auto simp: unix_rewrite_nonempty intro!: filter_True)
  have "final_cmd h ?c1 (Str ?fin) =
        Inr (Str (join '' '' (reconstruct 0 (map ?f (filter (\<lambda>p. p \<noteq> []) ?ps2)) ?seps2)),
             snd (process_parts h ?c1 ?ps2))"
    using final_cmd_Str_unix [OF assms(1) p2, of ?c1] by (simp only: a)
  also have "map ?f (filter (\<lambda>p. p \<noteq> []) ?ps2) = map ?f ?pn"
    by (simp only: ne) (simp add: unix_rewrite_idem)
  also have "reconstruct 0 (map ?f ?pn) ?seps2 = reconstruct 0 (map ?f ?pn) seps"
    by (rule reconstruct_take) simp
  finally have 2: "final_cmd h ?c1 (Str ?fin) = Inr (Str ?fin, snd (process_parts h ?c1 ?ps2))" .
  from 1 2 show ?thesis by blast
qed

lemma rewrite_twice_multiline:
  assumes "\<not> os_nt h" and "NL \<in> set s"
  shows "\<exists>cm' c' c''. final_cmd h c (Str s) = Inr (cm', c') \<and> final_cmd h c' cm' = Inr (cm', c'')"
proof -
  have p: "parse_command (Str s) = ([[s]], [])" using assms(2) by (simp add: parse_command_def)
  let ?c1 = "snd (process_parts h c [[s]])"
  let ?a = "fst (is_sudo_available h c)"
  let ?f = "unix_rewrite h ?a"
  let ?fin = "join '' '' (?f [s])"
  have a: "fst (is_sudo_available h ?c1) = ?a"
    by (rule process_parts_unix_avail [OF assms(1)])
  have 1: "final_cmd h c (Str s) = Inr (Str ?fin, ?c1)"
    using final_cmd_Str_unix [OF assms(1) p, of c] by simp
  have fin: "?fin = s \<and> ?f [s] = [s] \<or> ?fin = ''sudo'' @ '' '' @ s"
    using unix_rewrite_cases [of h ?a "[s]"] by auto
  then have nl: "NL \<in> set ?fin" using assms(2) by auto
  then have p2: "parse_command (Str ?fin) = ([[?fin]], [])" by (simp add: parse_command_def)
  have st: "?f [?fin] = [?fin]"
    using fin
  proof
    assume "?fin = s \<and> ?f [s] = [s]"
    then show ?thesis by simp
  next
    assume e: "?fin = ''sudo'' @ '' '' @ s"
    show ?thesis unfolding e by (rule multiline_stable [OF assms])
  qed
  have ne: "?fin \<noteq> []" using nl by auto
  have "final_cmd h ?c1 (Str ?fin) =
        Inr (Str (join '' '' (reconstruct 0 (map ?f (filter (\<lambda>p. p \<noteq> []) [[?fin]])) [])),
             snd (process_parts h ?c1 [[?fin]]))"
    using final_cmd_Str_unix [OF assms(1) p2, of ?c1] by (simp only: a)
  also have "join '' '' (reconstruct 0 (map ?f (filter (\<lambda>p. p \<noteq> []) [[?fin]])) []) = ?fin"
    by (simp add: st)
  finally have 2: "final_cmd h ?c1 (Str ?fin) = Inr (Str ?fin, snd (process_parts h ?c1 [[?fin]]))" .
  from 1 2 show ?thesis by blast
qed

text \<open>
  Claim C7.  On a Unix-family platform the rewrite is idempotent: for every command (a
  token list, a single-line text or a multi-line text), rewriting the rewritten command
  gives the same command again.  A segment that already begins with \<open>sudo\<close> (in any
  letter case, as the code compares) needs no elevation according to \<open>command_needs_sudo\<close>
  and is left unchanged by the loop, which does not even consult the availability probe
  for it.
\<close>

theorem rewrite_idempotent_on_unix:
  assumes "\<not> os_nt h"
  shows "(\<exists>cm' c' c''. final_cmd h c cm = Inr (cm', c') \<and> final_cmd h c' cm' = Inr (cm', c''))
         \<and> (p \<noteq> [] \<and> lower (hd p) = ''sudo''
             \<longrightarrow> \<not> fst (command_needs_sudo h c (Lst p)) \<and> process_parts h c [p] = ([p], c))"
proof
  show "\<exists>cm' c' c''. final_cmd h c cm = Inr (cm', c') \<and> final_cmd h c' cm' = Inr (cm', c'')"
  proof (cases cm)
    case (Lst ws)
    then show ?thesis using rewrite_twice_Lst [OF assms] by simp
  next
    case (Str s)
    then show ?thesis
      using rewrite_twice_single_line [OF assms, of s] rewrite_twice_multiline [OF assms, of s]
      by (cases "NL \<in> set s") simp_all
  qed
  show "p \<noteq> [] \<and> lower (hd p) = ''sudo''
          \<longrightarrow> \<not> fst (command_needs_sudo h c (Lst p)) \<and> process_parts h c [p] = ([p], c)"
    using assms by (simp add: command_needs_sudo_Lst del: needs_sudo_parts.simps)
qed

theorem rewrite_idempotent_on_unix_witness:
  "\<not> os_nt unix_host
   \<and> final_cmd unix_host None (Str ''sudo apt update'') = Inr (Str ''sudo apt update'', None)
   \<and> final_cmd unix_host None (Str ''apt update'') = Inr (Str ''sudo apt update'', Some True)
   \<and> final_cmd unix_host (Some True) (Str ''sudo apt update'')
       = Inr (Str ''sudo apt update'', Some True)
   \<and> [''sudo'', ''apt'', ''update''] \<noteq> [] \<and> lower (hd [''sudo'', ''apt'', ''update'']) = ''sudo''
   \<and> \<not> fst (command_needs_sudo unix_host None (Lst [''sudo'', ''apt'', ''update'']))
   \<and> process_parts unix_host None [[''sudo'', ''apt'', ''update'']]
       = ([[''sudo'', ''apt'', ''update'']], None)"
proof -
  have a: "\<not> os_nt unix_host" by (simp add: unix_host_def)
  have b: "final_cmd unix_host None (Str ''sudo apt update'') = Inr (Str ''sudo apt update'', None)"
    by code_simp
  have c: "final_cmd unix_host None (Str ''apt update'') = Inr (Str ''sudo apt update'', Some True)"
    by code_simp
  have d: "final_cmd unix_host (Some True) (Str ''sudo apt update'')
       = Inr (Str ''sudo apt update'', Some True)"
    by code_simp
  have e: "lower (hd [''sudo'', ''apt'', ''update'']) = ''sudo''" by (simp add: lower_sudo)
  show ?thesis
    using a b c d e
      rewrite_idempotent_on_unix [OF a, of None "Str ''apt update''" "[''sudo'', ''apt'', ''update'']"]
    by simp
qed


subsection \<open>The split into argv\<close>

lemma shlex_whitespace_isspace: "shlex_whitespace c \<Longrightarrow> isspace c"
  by (auto simp: shlex_whitespace_def isspace_def)

lemma shlex_word:
  "\<forall>c\<in>set w. \<not> isspace c \<and> c \<noteq> SQ \<and> c \<noteq> DQ \<and> c \<noteq> BSL \<Longrightarrow>
   shlex_tokens LWord tok quoted (w @ rest) = shlex_tokens LWord (tok @ w) quoted rest"
proof (induction w arbitrary: tok)
  case Nil
  then show ?case by simp
next
  case (Cons c w)
  then have "\<not> shlex_whitespace c" "c \<noteq> SQ" "c \<noteq> DQ" "c \<noteq> BSL"
    using shlex_whitespace_isspace by auto
  with Cons show ?case by simp
qed

lemma shlex_first:
  assumes "plain w"
  shows "shlex_tokens LSpace [] False (w @ rest) = shlex_tokens LWord w False rest"
proof -
  from assms obtain c w' where w: "w = c # w'" by (cases w) (auto simp: plain_def)
  with assms have c: "\<not> shlex_whitespace c" "c \<noteq> SQ" "c \<noteq> DQ" "c \<noteq> BSL"
    and r: "\<forall>c\<in>set w'. \<not> isspace c \<and> c \<noteq> SQ \<and> c \<noteq> DQ \<and> c \<noteq> BSL"
    using shlex_whitespace_isspace by (auto simp: plain_def)
  show ?thesis using c shlex_word [OF r, of "[c]" False rest] by (simp add: w)
qed

lemma shlex_join: "list_all plain ws \<Longrightarrow> shlex_split (join '' '' ws) = Inr ws"
  unfolding shlex_split_def
proof (induction ws rule: valid_words.induct)
  case 1
  then show ?case by simp
next
  case (2 w)
  then have p: "plain w" by simp
  then have "w \<noteq> []" by (simp add: plain_def)
  with shlex_first [OF p, of "[]"] show ?case by simp
next
  case (3 w v vs)
  then have p: "plain w" and ih: "shlex_tokens LSpace [] False (join '' '' (v # vs)) = Inr (v # vs)"
    by simp_all
  from p have ne: "w \<noteq> []" by (simp add: plain_def)
  have "shlex_tokens LSpace [] False (join '' '' (w # v # vs))
        = shlex_tokens LWord w False (SP # join '' '' (v # vs))"
    using shlex_first [OF p, of "SP # join '' '' (v # vs)"] by simp
  also have "\<dots> = emit w (shlex_tokens LSpace [] False (join '' '' (v # vs)))"
    using ne by (simp add: shlex_whitespace_def)
  finally show ?case by (simp add: ih emit_def)
qed

lemma scan_word_no_quotes:
  "SQ \<notin> set w \<Longrightarrow> DQ \<notin> set w \<Longrightarrow> scan_word None w \<noteq> None \<Longrightarrow> \<forall>c\<in>set w. \<not> isspace c"
  by (induction w) (auto split: if_splits)

lemma valid_words_openw: "valid_words ws \<Longrightarrow> list_all openw ws"
  by (induction ws rule: valid_words.induct) (auto simp: closed_openw)

lemma words_of_chars: "w \<in> set (words_of q cur cs) \<Longrightarrow> set w \<subseteq> set cur \<union> set cs"
proof (induction cs arbitrary: q cur)
  case Nil
  then show ?case by (auto split: if_splits)
next
  case (Cons c cs)
  show ?case
  proof (cases "isspace c \<and> q = None \<and> c \<noteq> SQ \<and> c \<noteq> DQ")
    case True
    with Cons.prems have "w = cur \<or> w \<in> set (words_of None [] cs)" by (auto split: if_splits)
    then show ?thesis using Cons.IH [of None "[]"] by auto
  next
    case False
    then obtain q' where "w \<in> set (words_of q' (cur @ [c]) cs)"
      using Cons.prems by (auto split: if_splits)
    from Cons.IH [OF this] show ?thesis by auto
  qed
qed

lemma split_ws_chars: "v \<in> set (split_ws w cs) \<Longrightarrow> set v \<subseteq> set w \<union> set cs"
proof (induction cs arbitrary: w)
  case Nil
  then show ?case by (auto split: if_splits)
next
  case (Cons c cs)
  show ?case
  proof (cases "isspace c")
    case True
    with Cons.prems have "v = w \<or> v \<in> set (split_ws [] cs)" by (auto split: if_splits)
    then show ?thesis using Cons.IH [of "[]"] by auto
  next
    case False
    with Cons.prems have "v \<in> set (split_ws (w @ [c]) cs)" by simp
    from Cons.IH [OF this] show ?thesis by auto
  qed
qed

lemma join_chars: "set (join '' '' ws) \<subseteq> \<Union> (set ` set ws) \<union> {SP}"
  by (induction "'' ''" ws rule: join.induct) auto

lemma normalize_chars: "NL \<notin> set s \<Longrightarrow> set (normalize_whitespace s) \<subseteq> set s \<union> {SP}"
proof -
  assume "NL \<notin> set s"
  then have "normalize_whitespace s = join '' '' (split_ws [] s)"
    by (simp add: normalize_whitespace_def py_split_def replace_continuation_id)
  moreover have "\<Union> (set ` set (split_ws [] s)) \<subseteq> set s"
    using split_ws_chars [of _ "[]" s] by auto
  ultimately show ?thesis using join_chars [of "split_ws [] s"] by (simp only:) blast
qed

lemma parse_words:
  assumes "NL \<notin> set s" and "parse_command (Str s) = (ps, seps)"
  shows "concat (filter (\<lambda>p. p \<noteq> []) ps)
         = filter nonop (words_of None [] (normalize_whitespace s))"
proof -
  let ?W = "words_of None [] (normalize_whitespace s)"
  let ?T = "foldl gstep ([], [], []) ?W"
  have inv: "ginv ?T" by (rule foldl_gstep_ginv) simp
  have pr: "group_result ?T = (ps, seps)"
    using parse_command_words [OF assms(1)] assms(2) by simp
  note props = group_parts_props [OF inv]
  have "filter (\<lambda>p. p \<noteq> []) ps = group_parts ?T" using props(6) pr by simp
  then show ?thesis using props(2) foldl_gstep_gcontent [of "([], [], [])" ?W] by simp
qed

lemma parse_plain_words:
  assumes "NL \<notin> set s" and "parse_command (Str s) = (ps, seps)"
    and "SQ \<notin> set s" "DQ \<notin> set s" "BSL \<notin> set s"
  shows "list_all plain (concat (filter (\<lambda>p. p \<noteq> []) ps))"
  unfolding list_all_iff
proof
  fix w assume w: "w \<in> set (concat (filter (\<lambda>p. p \<noteq> []) ps))"
  note st = parse_structure [OF assms(1,2)]
  from st(6) have "list_all openw (concat (filter (\<lambda>p. p \<noteq> []) ps))" by (rule valid_words_openw)
  with w have o: "w \<noteq> []" "scan_word None w \<noteq> None" by (auto simp: list_all_iff openw_def)
  from w have "w \<in> set (words_of None [] (normalize_whitespace s))"
    unfolding parse_words [OF assms(1,2)] by simp
  then have "set w \<subseteq> set (normalize_whitespace s)" using words_of_chars by fastforce
  with normalize_chars [OF assms(1)] have c: "set w \<subseteq> set s \<union> {SP}" by blast
  have q: "SQ \<notin> set w" "DQ \<notin> set w" "BSL \<notin> set w" using c assms(3-5) by auto
  from scan_word_no_quotes [OF q(1,2) o(2)] o(1) q show "plain w" by (auto simp: plain_def)
qed

lemma plain_sudo: "plain ''sudo''"
  by (simp add: plain_def isspace_def)

lemma reconstruct_no_seps: "reconstruct i ps [] = concat ps"
  by (induction ps arbitrary: i) auto

lemma concat_filter_nonempty: "concat (filter (\<lambda>p. p \<noteq> []) ps) = concat ps"
  by (induction ps) auto

lemma process_parts_words:
  "w \<in> set (concat (fst (process_parts h c ps))) \<Longrightarrow> w = ''sudo'' \<or> w \<in> set (concat ps)"
proof (induction ps arbitrary: c)
  case Nil
  then show ?case by simp
next
  case (Cons p ps)
  show ?case
  proof (cases "p = []")
    case True
    with Cons show ?thesis by simp
  next
    case False
    have d: "set (drop k p) \<subseteq> set p" for k by (rule set_drop_subset)
    from Cons.prems False show ?thesis
      using Cons.IH d
      by (auto simp: split_def Let_def split: if_splits dest: in_set_dropD)
  qed
qed

lemma final_cmd_Str_parts:
  "parse_command (Str s) = (ps, seps) \<Longrightarrow>
   final_cmd h c (Str s) =
     Inr (Str (join '' '' (reconstruct 0 (fst (process_parts h c ps)) seps)),
          snd (process_parts h c ps))"
  using parse_command_parts_nonempty [of "Str s"]
  by (simp add: final_cmd_def split_def Let_def)

lemma scan_word_plain:
  "\<forall>c\<in>set w. \<not> isspace c \<and> c \<noteq> SQ \<and> c \<noteq> DQ \<Longrightarrow> scan_word q w = Some q"
  by (induction w) auto

lemma plain_closed: "plain w \<Longrightarrow> closed w"
  by (simp add: plain_def closed_def scan_word_plain)

lemma plain_wordy: "plain w \<Longrightarrow> wordy w"
  by (auto simp: plain_def intro: spacefree_wordy)

lemma parse_join_plain:
  assumes "list_all plain ws" and "\<forall>w\<in>set ws. nonop w"
  shows "parse_command (Str (join '' '' ws)) = ([ws], [])"
proof -
  have v: "valid_words ws"
    by (rule valid_words_all_closed) (use assms(1) in \<open>auto simp: list_all_iff plain_closed\<close>)
  have w: "list_all wordy ws" using assms(1) by (auto simp: list_all_iff plain_wordy)
  have n: "norm_ok (join '' '' ws)" by (rule norm_ok_join [OF w])
  then have nl: "NL \<notin> set (join '' '' ws)" by (simp add: norm_ok_def nspaced_no_NL)
  have "parse_command (Str (join '' '' ws))
        = group_result (foldl gstep ([], [], []) (words_of None [] (normalize_whitespace (join '' '' ws))))"
    by (rule parse_command_words [OF nl])
  also have "normalize_whitespace (join '' '' ws) = join '' '' ws" by (rule normalize_id [OF n])
  also have "words_of None [] (join '' '' ws) = ws" by (rule words_of_join [OF v])
  also have "foldl gstep ([], [], []) ws = ([], [], [] @ ws)"
    by (rule foldl_gstep_nonop [OF assms(2)])
  finally show ?thesis by simp
qed

lemma call_subprocess_run_calls:
  "calls (snd (call_subprocess_run fx w r fc sh kw)) = calls w
   \<or> (\<exists>call. calls (snd (call_subprocess_run fx w r fc sh kw)) = calls w @ [call]
         \<and> call_args call = fc \<and> call_shell call = sh)"
  by (simp add: call_subprocess_run_def Let_def split_def)

lemma default_kwargs:
  assumes "input r = None" and "kwargs r = []"
  shows "\<exists>io. io_kwargs r = Inr io
           \<and> \<not> list_ex (\<lambda>k. map_of (dict_update (kwargs r) io) k \<noteq> None)
                 [''shell'', ''check'', ''text'', ''input'']"
  using assms by (simp add: io_kwargs_def payload_truthy_def dict_update_def)

lemma call_subprocess_run_made:
  assumes "\<not> list_ex (\<lambda>k. map_of kw k \<noteq> None) [''shell'', ''check'', ''text'', ''input'']"
  shows "\<exists>call. calls (snd (call_subprocess_run fx w r fc sh kw)) = calls w @ [call]
           \<and> call_args call = fc \<and> call_shell call = sh"
  using assms by (simp add: call_subprocess_run_def Let_def split_def)

lemma run_subprocess_argv:
  assumes "final_cmd h c (Str s) = Inr (Str fin, c')" and "shlex_split fin = Inr seg"
    and "cmd r = Str s" and "\<not> shell r" and "shell_type r = None"
  shows "run_subprocess h fx c w r =
         (case io_kwargs r of
            Inl e \<Rightarrow> (Inl e, w)
          | Inr io \<Rightarrow> call_subprocess_run fx w r (Lst seg) False (dict_update (kwargs r) io))"
  using assms by (simp add: run_subprocess_def try_block_def Let_def split_def split: sum.splits)

text \<open>
  Claim C8, as the code has it.  The split of line 395 is \<open>shlex.split\<close>, which removes
  quote characters and backslash escapes and splits at every whitespace; it follows other
  rules than the tokenizer of \<open>parse_command\<close>, which keeps quotes and backslashes and
  takes a multi-line text as one token.  The two agree where those rules do not apply: for
  every single-line textual command without chain operators that contains no quote
  character and no backslash, on either platform, the final command string splits into the
  token list that the tokenizer produces for it; and when shell invocation is not requested
  and no script interpreter is set, every call of \<open>subprocess.run\<close> that \<open>run_subprocess\<close>
  makes receives that token list as its argv, with \<open>shell=False\<close>, and with the other
  arguments at their defaults that call is made.
\<close>

theorem argv_split_of_plain_command:
  assumes "NL \<notin> set s" and "snd (parse_command (Str s)) = []"
    and "SQ \<notin> set s" and "DQ \<notin> set s" and "BSL \<notin> set s"
  shows "\<exists>fin c' seg. final_cmd h c (Str s) = Inr (Str fin, c')
           \<and> parse_command (Str fin) = ([seg], []) \<and> shlex_split fin = Inr seg
           \<and> (cmd r = Str s \<and> \<not> shell r \<and> shell_type r = None \<longrightarrow>
                (calls (snd (run_subprocess h fx c w r)) = calls w
                 \<or> (\<exists>call. calls (snd (run_subprocess h fx c w r)) = calls w @ [call]
                       \<and> call_args call = Lst seg \<and> \<not> call_shell call))
                \<and> (input r = None \<and> kwargs r = [] \<longrightarrow>
                     (\<exists>call. calls (snd (run_subprocess h fx c w r)) = calls w @ [call]
                        \<and> call_args call = Lst seg \<and> \<not> call_shell call)))"
proof -
  obtain ps where p: "parse_command (Str s) = (ps, [])"
    using assms(2) by (cases "parse_command (Str s)") auto
  let ?pn = "filter (\<lambda>p. p \<noteq> []) ps"
  let ?R = "concat (fst (process_parts h c ps))"
  let ?fin = "join '' '' ?R"
  note st = parse_structure [OF assms(1) p]
  have 1: "final_cmd h c (Str s) = Inr (Str ?fin, snd (process_parts h c ps))"
    using final_cmd_Str_parts [OF p, of h c] by (simp add: reconstruct_no_seps)
  have pl: "list_all plain (concat ?pn)" by (rule parse_plain_words [OF assms(1) p assms(3-5)])
  have no: "\<forall>w\<in>set (concat ?pn). nonop w" using st(2) by auto
  have R: "\<forall>w\<in>set ?R. plain w \<and> nonop w"
  proof
    fix w assume "w \<in> set ?R"
    then have "w = ''sudo'' \<or> w \<in> set (concat ps)" by (rule process_parts_words)
    then have "w = ''sudo'' \<or> w \<in> set (concat ?pn)" by (simp only: concat_filter_nonempty)
    then show "plain w \<and> nonop w"
      using pl no plain_sudo nonop_sudo by (auto simp: list_all_iff)
  qed
  have 2: "parse_command (Str ?fin) = ([?R], [])"
    by (rule parse_join_plain) (use R in \<open>simp_all add: list_all_iff\<close>)
  have 3: "shlex_split ?fin = Inr ?R"
    by (rule shlex_join) (use R in \<open>simp add: list_all_iff\<close>)
  have 4: "calls (snd (run_subprocess h fx c w r)) = calls w
           \<or> (\<exists>call. calls (snd (run_subprocess h fx c w r)) = calls w @ [call]
                 \<and> call_args call = Lst ?R \<and> \<not> call_shell call)"
    if r: "cmd r = Str s" "\<not> shell r" "shell_type r = None"
  proof (cases "io_kwargs r")
    case (Inl e)
    then show ?thesis using run_subprocess_argv [OF 1 3 r, of fx w] by simp
  next
    case (Inr io)
    then show ?thesis
      using run_subprocess_argv [OF 1 3 r, of fx w]
        call_subprocess_run_calls [of fx w r "Lst ?R" False "dict_update (kwargs r) io"]
      by simp
  qed
  have 5: "\<exists>call. calls (snd (run_subprocess h fx c w r)) = calls w @ [call]
                 \<and> call_args call = Lst ?R \<and> \<not> call_shell call"
    if r: "cmd r = Str s" "\<not> shell r" "shell_type r = None" and d: "input r = None" "kwargs r = []"
  proof -
    from default_kwargs [OF d] obtain io where io: "io_kwargs r = Inr io"
      and nd: "\<not> list_ex (\<lambda>k. map_of (dict_update (kwargs r) io) k \<noteq> None)
                 [''shell'', ''check'', ''text'', ''input'']" by blast
    show ?thesis
      using run_subprocess_argv [OF 1 3 r, of fx w] io
        call_subprocess_run_made [OF nd, of fx w r "Lst ?R" False]
      by simp
  qed
  have 6: "cmd r = Str s \<and> \<not> shell r \<and> shell_type r = None \<longrightarrow>
                (calls (snd (run_subprocess h fx c w r)) = calls w
                 \<or> (\<exists>call. calls (snd (run_subprocess h fx c w r)) = calls w @ [call]
                       \<and> call_args call = Lst ?R \<and> \<not> call_shell call))
                \<and> (input r = None \<and> kwargs r = [] \<longrightarrow>
                     (\<exists>call. calls (snd (run_subprocess h fx c w r)) = calls w @ [call]
                        \<and> call_args call = Lst ?R \<and> \<not> call_shell call))"
    using 4 5 by (intro impI conjI) (elim conjE, assumption+)+
  show ?thesis
    by (rule exI [of _ ?fin], rule exI [of _ "snd (process_parts h c ps)"], rule exI [of _ ?R])
      (intro conjI, rule 1, rule 2, rule 3, rule 6)
qed

theorem argv_split_of_plain_command_witness:
  "NL \<notin> set ''sudo -n ls -la /tmp''
   \<and> snd (parse_command (Str ''sudo -n ls -la /tmp'')) = []
   \<and> SQ \<notin> set ''sudo -n ls -la /tmp'' \<and> DQ \<notin> set ''sudo -n ls -la /tmp''
   \<and> BSL \<notin> set ''sudo -n ls -la /tmp''
   \<and> cmd (plain_request ''sudo -n ls -la /tmp'') = Str ''sudo -n ls -la /tmp''
   \<and> \<not> shell (plain_request ''sudo -n ls -la /tmp'')
   \<and> shell_type (plain_request ''sudo -n ls -la /tmp'') = None
   \<and> input (plain_request ''sudo -n ls -la /tmp'') = None
   \<and> kwargs (plain_request ''sudo -n ls -la /tmp'') = []
   \<and> final_cmd windows_host None (Str ''sudo -n ls -la /tmp'') = Inr (Str ''ls -la /tmp'', None)
   \<and> parse_command (Str ''ls -la /tmp'') = ([[''ls'', ''-la'', ''/tmp'']], [])
   \<and> shlex_split ''ls -la /tmp'' = Inr [''ls'', ''-la'', ''/tmp'']
   \<and> map (\<lambda>call. (call_args call, call_shell call))
         (calls (snd (run_subprocess windows_host quiet_os None empty_world
            (plain_request ''sudo -n ls -la /tmp''))))
       = [(Lst [''ls'', ''-la'', ''/tmp''], False)]"
proof -
  have b: "NL \<notin> set ''sudo -n ls -la /tmp''" by simp
  have c: "snd (parse_command (Str ''sudo -n ls -la /tmp'')) = []" by code_simp
  have d: "SQ \<notin> set ''sudo -n ls -la /tmp''" "DQ \<notin> set ''sudo -n ls -la /tmp''"
    "BSL \<notin> set ''sudo -n ls -la /tmp''"
    by simp_all
  have r: "cmd (plain_request ''sudo -n ls -la /tmp'') = Str ''sudo -n ls -la /tmp''"
    "\<not> shell (plain_request ''sudo -n ls -la /tmp'')"
    "shell_type (plain_request ''sudo -n ls -la /tmp'') = None"
    "input (plain_request ''sudo -n ls -la /tmp'') = None"
    "kwargs (plain_request ''sudo -n ls -la /tmp'') = []"
    by (simp_all add: plain_request_def)
  have e: "final_cmd windows_host None (Str ''sudo -n ls -la /tmp'')
           = Inr (Str ''ls -la /tmp'', None)"
    by code_simp
  have f: "parse_command (Str ''ls -la /tmp'') = ([[''ls'', ''-la'', ''/tmp'']], [])"
    by code_simp
  have g: "shlex_split ''ls -la /tmp'' = Inr [''ls'', ''-la'', ''/tmp'']" by code_simp
  have k: "map (\<lambda>call. (call_args call, call_shell call))
         (calls (snd (run_subprocess windows_host quiet_os None empty_world
            (plain_request ''sudo -n ls -la /tmp''))))
       = [(Lst [''ls'', ''-la'', ''/tmp''], False)]"
    by code_simp
  show ?thesis
    using b c d r e f g k
      argv_split_of_plain_command [OF b c d, of windows_host None
        "plain_request ''sudo -n ls -la /tmp''" quiet_os empty_world]
    by simp
qed

text \<open>The claim as stated fails on a quoted word, on a backslash, on a multi-line text and
  when a script interpreter is set.  For \<open>echo 'hi'\<close> the process is started with the
  argument \<open>hi\<close>, and the tokenizer's token is \<open>'hi'\<close> with its quotes; for \<open>echo a\b\<close>
  the argument is \<open>ab\<close> and the token \<open>a\b\<close>; the two lines \<open>echo a\<close> and \<open>echo b\<close> are
  one token for the tokenizer and four words for the split; and for \<open>ls -la\<close> with the
  interpreter \<open>bash\<close> the process is started through the shell with the command line
  \<open>bash -c /tmp/tmpscript.sh\<close>, not with the argv \<open>ls\<close>, \<open>-la\<close>.\<close>

theorem tokenizations_differ_counterexample:
  "final_cmd unix_host None (Str (''echo '' @ [SQ] @ ''hi'' @ [SQ]))
     = Inr (Str (''echo '' @ [SQ] @ ''hi'' @ [SQ]), Some True)
   \<and> parse_command (Str (''echo '' @ [SQ] @ ''hi'' @ [SQ]))
       = ([[''echo'', [SQ] @ ''hi'' @ [SQ]]], [])
   \<and> shlex_split (''echo '' @ [SQ] @ ''hi'' @ [SQ]) = Inr [''echo'', ''hi'']
   \<and> map call_args (calls (snd (run_subprocess unix_host quiet_os None empty_world
        (plain_request (''echo '' @ [SQ] @ ''hi'' @ [SQ])))))
       = [Lst [''echo'', ''hi'']]
   \<and> final_cmd unix_host None (Str (''echo a'' @ [BSL] @ ''b''))
       = Inr (Str (''echo a'' @ [BSL] @ ''b''), Some True)
   \<and> parse_command (Str (''echo a'' @ [BSL] @ ''b'')) = ([[''echo'', ''a'' @ [BSL] @ ''b'']], [])
   \<and> shlex_split (''echo a'' @ [BSL] @ ''b'') = Inr [''echo'', ''ab'']
   \<and> final_cmd unix_host None (Str (''echo a'' @ [NL] @ ''echo b''))
       = Inr (Str (''echo a'' @ [NL] @ ''echo b''), Some True)
   \<and> parse_command (Str (''echo a'' @ [NL] @ ''echo b''))
       = ([[''echo a'' @ [NL] @ ''echo b'']], [])
   \<and> shlex_split (''echo a'' @ [NL] @ ''echo b'') = Inr [''echo'', ''a'', ''echo'', ''b'']
   \<and> final_cmd unix_host None (Str ''ls -la'') = Inr (Str ''ls -la'', Some True)
   \<and> parse_command (Str ''ls -la'') = ([[''ls'', ''-la'']], [])
   \<and> map (\<lambda>call. (call_args call, call_shell call))
         (calls (snd (run_subprocess unix_host quiet_os None empty_world
            ((plain_request ''ls -la'')\<lparr>shell_type := Some BASH\<rparr>))))
       = [(Str ''bash -c /tmp/tmpscript.sh'', True)]"
  by code_simp

subsection \<open>Malformed input\<close>

lemma scan_quote_state:
  "in_quotes st \<longleftrightarrow> quote_char st \<noteq> None \<Longrightarrow>
   quote_char (foldl scan_char st cs) = qstate (quote_char st) cs
   \<and> (in_quotes (foldl scan_char st cs) \<longleftrightarrow> qstate (quote_char st) cs \<noteq> None)"
proof (induction cs arbitrary: st)
  case Nil
  then show ?case by simp
next
  case (Cons c cs)
  have inv: "in_quotes (scan_char st c) \<longleftrightarrow> quote_char (scan_char st c) \<noteq> None"
    using Cons.prems by (auto simp: scan_char_def)
  have q: "qstate (quote_char (scan_char st c)) cs = qstate (quote_char st) (c # cs)"
    using Cons.prems by (auto simp: scan_char_def)
  from Cons.IH [OF inv] q show ?case by simp
qed

lemma open_quote_qstate: "open_quote s \<longleftrightarrow> qstate None s \<noteq> None"
  using scan_quote_state [of scan_init s] by (simp add: open_quote_def scan_init_def)

lemma emit_Inl: "emit tok (Inl e) = Inl e"
  by (simp add: emit_def)

lemma shlex_whitespace_not_quote: "shlex_whitespace c \<Longrightarrow> c \<noteq> SQ \<and> c \<noteq> DQ"
  by (auto simp: shlex_whitespace_def)

lemma shlex_open_quote:
  assumes "BSL \<notin> set cs" and "\<forall>q. st = LQuote q \<longrightarrow> q = SQ \<or> q = DQ"
    and "\<forall>e. st \<noteq> LEscape e" and "qstate (lex_quote st) cs \<noteq> None"
  shows "shlex_tokens st tok quoted cs = Inl (ValueError ''No closing quotation'')"
  using assms
proof (induction cs arbitrary: st tok quoted)
  case Nil
  then show ?case by (cases st) auto
next
  case (Cons c cs)
  have b: "c \<noteq> BSL" "BSL \<notin> set cs" using Cons.prems(1) by auto
  have ih: "shlex_tokens st' tok' quoted' cs = Inl (ValueError ''No closing quotation'')"
    if "\<forall>q. st' = LQuote q \<longrightarrow> q = SQ \<or> q = DQ" "\<forall>e. st' \<noteq> LEscape e"
      "qstate (lex_quote st') cs \<noteq> None" for st' tok' quoted'
    using Cons.IH [OF b(2) that] .
  show ?case
  proof (cases st)
    case LSpace
    show ?thesis
    proof (cases "c = SQ \<or> c = DQ")
      case True
      then have w: "\<not> shlex_whitespace c" using shlex_whitespace_not_quote by blast
      have "qstate (Some c) cs \<noteq> None" using Cons.prems(4) True LSpace by simp
      then have "shlex_tokens (LQuote c) tok quoted cs = Inl (ValueError ''No closing quotation'')"
        using True by (intro ih) simp_all
      then show ?thesis using True w b(1) LSpace by simp
    next
      case False
      then have q: "qstate None cs \<noteq> None" using Cons.prems(4) LSpace by simp
      have 1: "shlex_tokens LSpace tok' quoted' cs = Inl (ValueError ''No closing quotation'')"
        for tok' quoted'
        using q by (intro ih) simp_all
      have 2: "shlex_tokens LWord tok' quoted' cs = Inl (ValueError ''No closing quotation'')"
        for tok' quoted'
        using q by (intro ih) simp_all
      show ?thesis using False b(1) LSpace 1 2 by (simp add: emit_Inl)
    qed
  next
    case LWord
    show ?thesis
    proof (cases "c = SQ \<or> c = DQ")
      case True
      then have w: "\<not> shlex_whitespace c" using shlex_whitespace_not_quote by blast
      have "qstate (Some c) cs \<noteq> None" using Cons.prems(4) True LWord by simp
      then have "shlex_tokens (LQuote c) tok quoted cs = Inl (ValueError ''No closing quotation'')"
        using True by (intro ih) simp_all
      then show ?thesis using True w b(1) LWord by simp
    next
      case False
      then have q: "qstate None cs \<noteq> None" using Cons.prems(4) LWord by simp
      have 1: "shlex_tokens LSpace tok' quoted' cs = Inl (ValueError ''No closing quotation'')"
        for tok' quoted'
        using q by (intro ih) simp_all
      have 2: "shlex_tokens LWord tok' quoted' cs = Inl (ValueError ''No closing quotation'')"
        for tok' quoted'
        using q by (intro ih) simp_all
      show ?thesis using False b(1) LWord 1 2 by (simp add: emit_Inl)
    qed
  next
    case (LQuote q)
    with Cons.prems(2) have qq: "q = SQ \<or> q = DQ" by simp
    show ?thesis
    proof (cases "c = q")
      case True
      then have "qstate None cs \<noteq> None" using Cons.prems(4) LQuote qq by auto
      then have "shlex_tokens LWord tok True cs = Inl (ValueError ''No closing quotation'')"
        by (intro ih) simp_all
      then show ?thesis using True LQuote by simp
    next
      case False
      then have "qstate (Some q) cs \<noteq> None" using Cons.prems(4) LQuote by auto
      then have "shlex_tokens (LQuote q) (tok @ [c]) True cs
                 = Inl (ValueError ''No closing quotation'')"
        using qq by (intro ih) simp_all
      then show ?thesis using False b(1) LQuote by simp
    qed
  next
    case (LEscape e)
    with Cons.prems(3) show ?thesis by simp
  qed
qed

lemma shlex_split_open_quote:
  "BSL \<notin> set s \<Longrightarrow> open_quote s \<Longrightarrow> shlex_split s = Inl (ValueError ''No closing quotation'')"
  unfolding shlex_split_def open_quote_qstate
  by (rule shlex_open_quote) simp_all

lemma qstate_special: "qstate q (filter special cs) = qstate q cs"
  by (induction cs arbitrary: q) (auto simp: special_def)

lemma special_join:
  "filter special (join '' '' ws) = concat (map (filter special) ws)"
  by (induction "'' ''" ws rule: join.induct) (auto simp: special_def)

lemma special_operator: "w \<in> set chain_operators \<Longrightarrow> filter special w = []"
  by (auto simp: chain_operators_def special_def)

lemma special_reconstruct:
  assumes "set seps \<subseteq> set chain_operators"
  shows "concat (map (filter special) (reconstruct i ps seps))
         = concat (map (filter special) (concat ps))"
proof (induction ps arbitrary: i)
  case Nil
  then show ?case by simp
next
  case (Cons p ps)
  have "filter special (seps ! (i - 1)) = []" if "i - 1 < length seps"
    using that assms special_operator by (meson nth_mem subsetD)
  with Cons show ?case by simp
qed

lemma special_rewrite:
  assumes "\<forall>p. f p = p \<or> f p = ''sudo'' # p"
  shows "concat (map (filter special) (concat (map f ps)))
         = concat (map (filter special) (concat ps))"
proof (induction ps)
  case Nil
  then show ?case by simp
next
  case (Cons p ps)
  have "f p = p \<or> f p = ''sudo'' # p" using assms by simp
  with Cons show ?case by (auto simp: special_def)
qed

lemma special_nonop:
  "concat (map (filter special) (filter nonop ws)) = concat (map (filter special) ws)"
  by (induction ws) (auto simp: special_operator)

lemma words_of_normalize: "join '' '' (words_of None [] (normalize_whitespace s)) = normalize_whitespace s"
proof -
  have n: "norm_ok (normalize_whitespace s)" by (rule norm_ok_normalize)
  show ?thesis
    by (rule join_words_of [of "normalize_whitespace s" "[]" None, simplified])
      (use n in \<open>auto simp: norm_ok_def\<close>)
qed

lemma special_final_unix:
  assumes "\<not> os_nt h" and "NL \<notin> set s" and "final_cmd h c (Str s) = Inr (Str fin, c')"
  shows "filter special fin = filter special (normalize_whitespace s)"
proof -
  obtain ps seps where p: "parse_command (Str s) = (ps, seps)"
    by (cases "parse_command (Str s)") auto
  let ?pn = "filter (\<lambda>p. p \<noteq> []) ps"
  let ?f = "unix_rewrite h (fst (is_sudo_available h c))"
  let ?W = "words_of None [] (normalize_whitespace s)"
  note st = parse_structure [OF assms(2) p]
  have f: "\<forall>p. ?f p = p \<or> ?f p = ''sudo'' # p" using unix_rewrite_cases by simp
  have fin: "fin = join '' '' (reconstruct 0 (map ?f ?pn) seps)"
    using final_cmd_Str_unix [OF assms(1) p, of c] assms(3) by simp
  have "filter special fin = concat (map (filter special) (reconstruct 0 (map ?f ?pn) seps))"
    unfolding fin by (rule special_join)
  also have "\<dots> = concat (map (filter special) (concat (map ?f ?pn)))"
    by (rule special_reconstruct [OF st(3)])
  also have "\<dots> = concat (map (filter special) (concat ?pn))"
    by (rule special_rewrite [OF f])
  also have "concat ?pn = filter nonop ?W" by (rule parse_words [OF assms(2) p])
  also have "concat (map (filter special) (filter nonop ?W)) = concat (map (filter special) ?W)"
    by (rule special_nonop)
  also have "\<dots> = filter special (join '' '' ?W)" by (rule special_join [symmetric])
  also have "join '' '' ?W = normalize_whitespace s" by (rule words_of_normalize)
  finally show ?thesis .
qed

lemma open_quote_final_unix:
  assumes "\<not> os_nt h" and "NL \<notin> set s" and "final_cmd h c (Str s) = Inr (Str fin, c')"
    and "BSL \<notin> set s" and "open_quote (normalize_whitespace s)"
  shows "BSL \<notin> set fin \<and> open_quote fin"
proof -
  note sp = special_final_unix [OF assms(1-3)]
  have "BSL \<notin> set (normalize_whitespace s)" using normalize_chars [OF assms(2)] assms(4) by auto
  then have "BSL \<notin> set (filter special (normalize_whitespace s))" by simp
  then have "BSL \<notin> set (filter special fin)" unfolding sp .
  then have 1: "BSL \<notin> set fin" by (simp add: special_def)
  have "qstate None fin = qstate None (filter special fin)" by (rule qstate_special [symmetric])
  also have "\<dots> = qstate None (normalize_whitespace s)" by (simp only: sp qstate_special)
  finally have 2: "open_quote fin" using assms(5) by (simp add: open_quote_qstate)
  from 1 2 show ?thesis ..
qed

lemma run_subprocess_open_quote:
  assumes "final_cmd h c (Str s) = Inr (Str fin, c')" and "cmd r = Str s" and "\<not> shell r"
    and "BSL \<notin> set fin" and "open_quote fin"
  shows "run_subprocess h fx c w r =
         (Inl (case io_kwargs r of Inl e \<Rightarrow> e | Inr io \<Rightarrow> ValueError ''No closing quotation''), w)"
  using assms(1-3) shlex_split_open_quote [OF assms(4,5)]
  by (simp add: run_subprocess_def Let_def split: sum.splits)

lemma run_subprocess_shell:
  assumes "final_cmd h c (Str s) = Inr (Str fin, c')" and "cmd r = Str s" and "shell r"
    and "shell_type r = None" and "input r = None" and "kwargs r = []"
  shows "\<exists>call. calls (snd (run_subprocess h fx c w r)) = calls w @ [call]
           \<and> call_args call = Str fin \<and> call_shell call"
proof -
  from default_kwargs [OF assms(5,6)] obtain io where io: "io_kwargs r = Inr io"
    and nd: "\<not> list_ex (\<lambda>k. map_of (dict_update (kwargs r) io) k \<noteq> None)
               [''shell'', ''check'', ''text'', ''input'']" by blast
  have "run_subprocess h fx c w r
        = call_subprocess_run fx w r (Str fin) True (dict_update (kwargs r) io)"
    using assms(1-4) io by (simp add: run_subprocess_def try_block_def Let_def split_def)
  then show ?thesis
    using call_subprocess_run_made [OF nd, of fx w r "Str fin" True] by simp
qed

lemma reconstruct_words: "set (reconstruct i ps seps) \<subseteq> set (concat ps) \<union> set seps"
  by (induction ps arbitrary: i) auto

lemma chain_operators_plain: "w \<in> set chain_operators \<Longrightarrow> plain w"
  by (auto simp: chain_operators_def plain_def isspace_def)

lemma final_words_plain:
  assumes "NL \<notin> set s" and "SQ \<notin> set s" and "DQ \<notin> set s" and "BSL \<notin> set s"
    and "final_cmd h c (Str s) = Inr (Str fin, c')"
  shows "\<exists>argv. shlex_split fin = Inr argv"
proof -
  obtain ps seps where p: "parse_command (Str s) = (ps, seps)"
    by (cases "parse_command (Str s)") auto
  let ?pn = "filter (\<lambda>p. p \<noteq> []) ps"
  let ?R = "reconstruct 0 (fst (process_parts h c ps)) seps"
  note st = parse_structure [OF assms(1) p]
  have fin: "fin = join '' '' ?R" using final_cmd_Str_parts [OF p, of h c] assms(5) by simp
  have pl: "list_all plain (concat ?pn)" by (rule parse_plain_words [OF assms(1) p assms(2-4)])
  have "plain w" if w: "w \<in> set ?R" for w
  proof -
    from w reconstruct_words have "w \<in> set (concat (fst (process_parts h c ps))) \<or> w \<in> set seps"
      by blast
    then show ?thesis
    proof
      assume "w \<in> set (concat (fst (process_parts h c ps)))"
      then have "w = ''sudo'' \<or> w \<in> set (concat ps)" by (rule process_parts_words)
      then have "w = ''sudo'' \<or> w \<in> set (concat ?pn)" by (simp only: concat_filter_nonempty)
      then show ?thesis using pl plain_sudo by (auto simp: list_all_iff)
    next
      assume "w \<in> set seps"
      with st(3) show ?thesis using chain_operators_plain by blast
    qed
  qed
  then have "list_all plain ?R" by (simp add: list_all_iff)
  then have "shlex_split fin = Inr ?R" unfolding fin by (rule shlex_join)
  then show ?thesis ..
qed

lemma run_subprocess_no_shell:
  assumes "final_cmd h c (Str s) = Inr (Str fin, c')" and "shlex_split fin = Inr argv"
    and "cmd r = Str s" and "\<not> shell r"
    and "shell_type r = None" and "input r = None" and "kwargs r = []"
  shows "\<exists>call. calls (snd (run_subprocess h fx c w r)) = calls w @ [call]
           \<and> call_args call = Lst argv \<and> \<not> call_shell call"
proof -
  from default_kwargs [OF assms(6,7)] obtain io where io: "io_kwargs r = Inr io"
    and nd: "\<not> list_ex (\<lambda>k. map_of (dict_update (kwargs r) io) k \<noteq> None)
               [''shell'', ''check'', ''text'', ''input'']" by blast
  show ?thesis
    using run_subprocess_argv [OF assms(1-5), of fx w] io
      call_subprocess_run_made [OF nd, of fx w r "Lst argv" False]
    by simp
qed

text \<open>
  Claim C4, as the code has it.  There is no error for a malformed command, and neither
  the tokenizer nor the rewrite raises on a textual command: \<open>run_subprocess\<close> always
  reaches a final command.  With shell invocation requested, every textual command is
  handed to \<open>subprocess.run\<close> as it was rewritten, whatever its operators and quotes.
  Without it, every single-line command that has no quote character and no backslash is
  split into an argv and executed, wherever its chain operators stand.  An error for
  unbalanced quotes can only come from \<open>shlex.split\<close>, when shell invocation is not
  requested: if the final command has no backslash and leaves a quote open, the
  \<open>ValueError\<close> of \<open>shlex.split\<close> reaches the caller and no process is started; and on a
  Unix-family platform the final command of a single-line input has no backslash and
  leaves a quote open whenever the input does.  (The calls are stated for a request
  without script interpreter, stdin payload and extra keyword arguments.)
\<close>

theorem malformed_command_handling:
  "\<exists>fin c'. final_cmd h c (Str s) = Inr (Str fin, c')
     \<and> (cmd r = Str s \<and> shell r \<and> shell_type r = None \<and> input r = None \<and> kwargs r = []
          \<longrightarrow> (\<exists>call. calls (snd (run_subprocess h fx c w r)) = calls w @ [call]
                  \<and> call_args call = Str fin \<and> call_shell call))
     \<and> (cmd r = Str s \<and> \<not> shell r \<and> shell_type r = None \<and> input r = None \<and> kwargs r = []
          \<and> NL \<notin> set s \<and> SQ \<notin> set s \<and> DQ \<notin> set s \<and> BSL \<notin> set s
          \<longrightarrow> (\<exists>call argv. calls (snd (run_subprocess h fx c w r)) = calls w @ [call]
                  \<and> call_args call = Lst argv \<and> shlex_split fin = Inr argv
                  \<and> \<not> call_shell call))
     \<and> (cmd r = Str s \<and> \<not> shell r \<and> BSL \<notin> set fin \<and> open_quote fin
          \<longrightarrow> run_subprocess h fx c w r
                = (Inl (case io_kwargs r of Inl e \<Rightarrow> e
                        | Inr io \<Rightarrow> ValueError ''No closing quotation''), w))
     \<and> (\<not> os_nt h \<and> NL \<notin> set s \<and> BSL \<notin> set s \<and> open_quote (normalize_whitespace s)
          \<longrightarrow> BSL \<notin> set fin \<and> open_quote fin)"
proof -
  obtain fin c' where 1: "final_cmd h c (Str s) = Inr (Str fin, c')"
    using final_cmd_Str [of h c s] by blast
  have 2: "cmd r = Str s \<and> shell r \<and> shell_type r = None \<and> input r = None \<and> kwargs r = []
          \<longrightarrow> (\<exists>call. calls (snd (run_subprocess h fx c w r)) = calls w @ [call]
                  \<and> call_args call = Str fin \<and> call_shell call)"
    using run_subprocess_shell [OF 1, of r fx w] by blast
  have 3: "cmd r = Str s \<and> \<not> shell r \<and> shell_type r = None \<and> input r = None \<and> kwargs r = []
          \<and> NL \<notin> set s \<and> SQ \<notin> set s \<and> DQ \<notin> set s \<and> BSL \<notin> set s
          \<longrightarrow> (\<exists>call argv. calls (snd (run_subprocess h fx c w r)) = calls w @ [call]
                  \<and> call_args call = Lst argv \<and> shlex_split fin = Inr argv
                  \<and> \<not> call_shell call)"
  proof (intro impI, elim conjE)
    assume r: "cmd r = Str s" "\<not> shell r" "shell_type r = None" "input r = None" "kwargs r = []"
      and s: "NL \<notin> set s" "SQ \<notin> set s" "DQ \<notin> set s" "BSL \<notin> set s"
    from final_words_plain [OF s 1] obtain argv where a: "shlex_split fin = Inr argv" ..
    from run_subprocess_no_shell [OF 1 a r, of fx w] a
    show "\<exists>call argv. calls (snd (run_subprocess h fx c w r)) = calls w @ [call]
                  \<and> call_args call = Lst argv \<and> shlex_split fin = Inr argv
                  \<and> \<not> call_shell call" by blast
  qed
  have 4: "cmd r = Str s \<and> \<not> shell r \<and> BSL \<notin> set fin \<and> open_quote fin
          \<longrightarrow> run_subprocess h fx c w r
                = (Inl (case io_kwargs r of Inl e \<Rightarrow> e
                        | Inr io \<Rightarrow> ValueError ''No closing quotation''), w)"
    using run_subprocess_open_quote [OF 1, of r fx w] by blast
  have 5: "\<not> os_nt h \<and> NL \<notin> set s \<and> BSL \<notin> set s \<and> open_quote (normalize_whitespace s)
          \<longrightarrow> BSL \<notin> set fin \<and> open_quote fin"
    using open_quote_final_unix [OF _ _ 1] by blast
  show ?thesis
    by (rule exI [of _ fin], rule exI [of _ c']) (intro conjI, rule 1, rule 2, rule 3, rule 4, rule 5)
qed


theorem malformed_command_handling_witness:
  "final_cmd unix_host None (Str (''echo '' @ [SQ] @ ''a''))
     = Inr (Str (''echo '' @ [SQ] @ ''a''), Some True)
   \<and> \<not> os_nt unix_host \<and> NL \<notin> set (''echo '' @ [SQ] @ ''a'')
   \<and> BSL \<notin> set (''echo '' @ [SQ] @ ''a'')
   \<and> open_quote (normalize_whitespace (''echo '' @ [SQ] @ ''a''))
   \<and> open_quote (''echo '' @ [SQ] @ ''a'')
   \<and> cmd (plain_request (''echo '' @ [SQ] @ ''a'')) = Str (''echo '' @ [SQ] @ ''a'')
   \<and> \<not> shell (plain_request (''echo '' @ [SQ] @ ''a''))
   \<and> run_subprocess unix_host quiet_os None empty_world (plain_request (''echo '' @ [SQ] @ ''a''))
       = (Inl (ValueError ''No closing quotation''), empty_world)
   \<and> shell ((plain_request (''echo '' @ [SQ] @ ''a''))\<lparr>shell := True\<rparr>)
   \<and> shell_type ((plain_request (''echo '' @ [SQ] @ ''a''))\<lparr>shell := True\<rparr>) = None
   \<and> input ((plain_request (''echo '' @ [SQ] @ ''a''))\<lparr>shell := True\<rparr>) = None
   \<and> kwargs ((plain_request (''echo '' @ [SQ] @ ''a''))\<lparr>shell := True\<rparr>) = []
   \<and> map (\<lambda>call. (call_args call, call_shell call))
         (calls (snd (run_subprocess unix_host quiet_os None empty_world
            ((plain_request (''echo '' @ [SQ] @ ''a''))\<lparr>shell := True\<rparr>))))
       = [(Str (''echo '' @ [SQ] @ ''a''), True)]
   \<and> final_cmd unix_host None (Str ''ls &&'') = Inr (Str ''ls'', Some True)
   \<and> NL \<notin> set ''ls &&'' \<and> SQ \<notin> set ''ls &&'' \<and> DQ \<notin> set ''ls &&'' \<and> BSL \<notin> set ''ls &&''
   \<and> shlex_split ''ls'' = Inr [''ls'']
   \<and> map (\<lambda>call. (call_args call, call_shell call))
         (calls (snd (run_subprocess unix_host quiet_os None empty_world (plain_request ''ls &&''))))
       = [(Lst [''ls''], False)]"
proof -
  let ?s = "''echo '' @ [SQ] @ ''a''"
  have f: "final_cmd unix_host None (Str ?s) = Inr (Str ?s, Some True)" by code_simp
  have h: "\<not> os_nt unix_host" by (simp add: unix_host_def)
  have s: "NL \<notin> set ?s" "BSL \<notin> set ?s" by simp_all
  have o: "open_quote (normalize_whitespace ?s)" "open_quote ?s" by code_simp+
  have r: "cmd (plain_request ?s) = Str ?s" "\<not> shell (plain_request ?s)"
    by (simp_all add: plain_request_def)
  have io: "io_kwargs (plain_request ?s)
            = Inr [(''stdout'', PPipe), (''stderr'', PPipe), (''stdin'', PNone)]"
    by (simp add: plain_request_def io_kwargs_def payload_truthy_def)
  have e: "run_subprocess unix_host quiet_os None empty_world (plain_request ?s)
           = (Inl (ValueError ''No closing quotation''), empty_world)"
    using f h s o r io
      malformed_command_handling [of unix_host None ?s "plain_request ?s" quiet_os empty_world]
    by simp
  have r2: "cmd ((plain_request ?s)\<lparr>shell := True\<rparr>) = Str ?s"
    "shell ((plain_request ?s)\<lparr>shell := True\<rparr>)"
    "shell_type ((plain_request ?s)\<lparr>shell := True\<rparr>) = None"
    "input ((plain_request ?s)\<lparr>shell := True\<rparr>) = None"
    "kwargs ((plain_request ?s)\<lparr>shell := True\<rparr>) = []"
    by (simp_all add: plain_request_def)
  have c2: "map (\<lambda>call. (call_args call, call_shell call))
         (calls (snd (run_subprocess unix_host quiet_os None empty_world
            ((plain_request ?s)\<lparr>shell := True\<rparr>))))
       = [(Str ?s, True)]"
    using f r2
      malformed_command_handling [of unix_host None ?s "(plain_request ?s)\<lparr>shell := True\<rparr>"
        quiet_os empty_world]
    by (auto simp: empty_world_def)
  have f3: "final_cmd unix_host None (Str ''ls &&'') = Inr (Str ''ls'', Some True)" by code_simp
  have s3: "NL \<notin> set ''ls &&''" "SQ \<notin> set ''ls &&''" "DQ \<notin> set ''ls &&''"
    "BSL \<notin> set ''ls &&''" by simp_all
  have x3: "shlex_split ''ls'' = Inr [''ls'']" by code_simp
  have r3: "cmd (plain_request ''ls &&'') = Str ''ls &&''" "\<not> shell (plain_request ''ls &&'')"
    "shell_type (plain_request ''ls &&'') = None" "input (plain_request ''ls &&'') = None"
    "kwargs (plain_request ''ls &&'') = []"
    by (simp_all add: plain_request_def)
  have c3: "map (\<lambda>call. (call_args call, call_shell call))
         (calls (snd (run_subprocess unix_host quiet_os None empty_world (plain_request ''ls &&''))))
       = [(Lst [''ls''], False)]"
    using f3 s3 x3 r3
      malformed_command_handling [of unix_host None "''ls &&''" "plain_request ''ls &&''"
        quiet_os empty_world]
    by (auto simp: empty_world_def)
  show ?thesis
    using f h s o r e r2 c2 f3 s3 x3 c3 by simp
qed


text \<open>The claim as stated fails: \<open>"&& ls"\<close> begins and \<open>"ls &&"\<close> ends with a chain
  operator, and both calls raise nothing and run \<open>ls\<close>; \<open>echo 'a\<close> leaves a quote open
  and is handed to the shell when shell invocation is requested; \<open>echo \'\<close> leaves a quote
  open for the tokenizer, but \<open>shlex.split\<close> reads an escaped quote and the process is
  started; and on Windows the open quote of \<open>ls && sudo -'a\<close> is dropped with the flags
  of \<open>sudo\<close>, and \<open>ls\<close> is started.\<close>

theorem malformed_command_counterexample:
  "run_subprocess unix_host quiet_os None empty_world (plain_request ''&& ls'')
     = (Inr (0, Some [], Some []),
        \<lparr>files = {},
         calls = [\<lparr>call_args = Lst [''ls''], call_shell = False, call_check = False,
                   call_kwargs = [(''stdout'', PPipe), (''stderr'', PPipe), (''stdin'', PNone),
                                  (''input'', PNone)]\<rparr>]\<rparr>)
   \<and> map call_args (calls (snd (run_subprocess unix_host quiet_os None empty_world
        (plain_request ''ls &&''))))
       = [Lst [''ls'']]
   \<and> open_quote (normalize_whitespace (''echo '' @ [SQ] @ ''a''))
   \<and> map call_args (calls (snd (run_subprocess unix_host quiet_os None empty_world
        ((plain_request (''echo '' @ [SQ] @ ''a''))\<lparr>shell := True\<rparr>))))
       = [Str (''echo '' @ [SQ] @ ''a'')]
   \<and> open_quote (normalize_whitespace (''echo '' @ [BSL, SQ]))
   \<and> map call_args (calls (snd (run_subprocess unix_host quiet_os None empty_world
        (plain_request (''echo '' @ [BSL, SQ])))))
       = [Lst [''echo'', [SQ]]]
   \<and> open_quote (normalize_whitespace (''ls && sudo -'' @ [SQ] @ ''a''))
   \<and> map call_args (calls (snd (run_subprocess windows_host quiet_os None empty_world
        (plain_request (''ls && sudo -'' @ [SQ] @ ''a'')))))
       = [Lst [''ls'', ''&&'']]"
  by code_simp

end
